theory Spec2Isabelle
  imports Complex_Main "HOL-Library.Word"
begin

unbundle bit_operations_syntax

section \<open>Wallet records and the wallet manager (walletManager.js)\<close>

text \<open>
  A wallet is the object literal built by \<^verbatim>\<open>_generateEVMWallet\<close> and
  \<^verbatim>\<open>_generateSolanaWallet\<close>. The \<^verbatim>\<open>balance\<close> field is a decimal string in
  the source (\<^verbatim>\<open>'0'\<close>, later the output of \<^verbatim>\<open>toFixed(6)\<close>); it is represented
  here by the number the string denotes, so \<^verbatim>\<open>parseFloat(w.balance || 0)\<close> is the
  field itself. IEEE rounding and \<^verbatim>\<open>NaN\<close> are outside this representation.
\<close>

record wallet =
  index :: nat
  chainType :: string
  address :: string
  privateKey :: string
  mnemonic :: string
  timestamp :: nat
  balance :: rat
  completed :: "string list"

text \<open>
  The singleton \<^verbatim>\<open>WalletManager\<close>: the in-memory array \<^verbatim>\<open>this.wallets\<close> and the
  handle \<^verbatim>\<open>this.db\<close>, which is \<^verbatim>\<open>null\<close> until \<^verbatim>\<open>init\<close> has opened the
  database. An open handle is represented by the content of the object store
  \<^verbatim>\<open>wallets\<close>, whose key path is \<^verbatim>\<open>index\<close>: its records in the order of their keys.
\<close>

record walletManager =
  wallets :: "wallet list"
  db :: "wallet list option"

datatype error =
    ValidationError         \<comment> \<open>\<^verbatim>\<open>'Wallet count must be between 1 and 20,000'\<close>\<close>
  | UnsupportedChainError   \<comment> \<open>\<^verbatim>\<open>'Unsupported chain type'\<close>\<close>
  | TransactionInactiveError
      \<comment> \<open>thrown by \<^verbatim>\<open>store.add\<close> on a transaction that is no longer active\<close>

text \<open>
  What \<^verbatim>\<open>Math.random\<close> and \<^verbatim>\<open>Date.now\<close> deliver while the wallet with a given
  index is generated: the result of \<^verbatim>\<open>_generateRandomHex(64)\<close>, the result of
  \<^verbatim>\<open>_generateMnemonic()\<close> and the clock.
\<close>

record entropy =
  randomHex :: "nat \<Rightarrow> string"
  randomMnemonic :: "nat \<Rightarrow> string"
  now :: "nat \<Rightarrow> nat"

subsection \<open>Address derivation\<close>

text \<open>
  \<^verbatim>\<open>_simpleHash\<close>: \<^verbatim>\<open>hash = ((hash << 5) - hash) + char; hash = hash & hash\<close> keeps
  the accumulator a signed 32-bit integer, so the loop is arithmetic on a 32-bit word.
\<close>

definition hexDigit :: "nat \<Rightarrow> char" where
  "hexDigit d = ''0123456789abcdef'' ! d"

fun toString16 :: "nat \<Rightarrow> string" where
  "toString16 n = (if n < 16 then [hexDigit n] else toString16 (n div 16) @ [hexDigit (n mod 16)])"

definition padStart :: "nat \<Rightarrow> char \<Rightarrow> string \<Rightarrow> string" where
  "padStart n c s = replicate (n - length s) c @ s"

definition simpleHash :: "string \<Rightarrow> string" where
  "simpleHash input =
     (let hash = fold (\<lambda>c h. (push_bit 5 h - h) + of_char c) input (0 :: 32 word)
      in padStart 64 (CHR ''0'') (toString16 (nat \<bar>sint hash\<bar>)))"

definition privateKeyToAddress :: "string \<Rightarrow> string" where
  "privateKeyToAddress pk = ''0x'' @ take 40 (simpleHash pk)"

definition hexValue :: "char \<Rightarrow> nat" where
  "hexValue c = (let v = of_char c :: nat in if 48 \<le> v \<and> v \<le> 57 then v - 48 else v - 87)"

definition parseHex :: "string \<Rightarrow> nat" where
  "parseHex s = fold (\<lambda>c n. 16 * n + hexValue c) s 0"

definition base58Alphabet :: string where
  "base58Alphabet = ''123456789ABCDEFGHJKLMNPQRSTUVWXYZabcdefghijkmnopqrstuvwxyz''"

fun base58Loop :: "nat \<Rightarrow> string \<Rightarrow> string" where
  "base58Loop num result =
     (if num > 0 then base58Loop (num div 58) ((base58Alphabet ! (num mod 58)) # result)
      else result)"

definition base58Encode :: "string \<Rightarrow> string" where
  "base58Encode hex = (let result = base58Loop (parseHex hex) [] in if result = [] then ''1'' else result)"

definition generateSolanaAddress :: "string \<Rightarrow> string" where
  "generateSolanaAddress pk = base58Encode (take 64 (simpleHash pk))"

subsection \<open>Generation\<close>

definition generateEVMWallet :: "entropy \<Rightarrow> nat \<Rightarrow> wallet" where
  "generateEVMWallet ent i =
     \<lparr>index = i, chainType = ''evm'', address = privateKeyToAddress (randomHex ent i),
      privateKey = randomHex ent i, mnemonic = randomMnemonic ent i, timestamp = now ent i,
      balance = 0, completed = []\<rparr>"

definition generateSolanaWallet :: "entropy \<Rightarrow> nat \<Rightarrow> wallet" where
  "generateSolanaWallet ent i =
     \<lparr>index = i, chainType = ''solana'', address = generateSolanaAddress (randomHex ent i),
      privateKey = randomHex ent i, mnemonic = randomMnemonic ent i, timestamp = now ent i,
      balance = 0, completed = []\<rparr>"

definition generateSingleWallet :: "entropy \<Rightarrow> string \<Rightarrow> nat \<Rightarrow> error + wallet" where
  "generateSingleWallet ent chain i =
     (if chain = ''evm'' then Inr (generateEVMWallet ent i)
      else if chain = ''solana'' then Inr (generateSolanaWallet ent i)
      else Inl UnsupportedChainError)"

text \<open>\<^verbatim>\<open>_generateBatch\<close>: the loop \<^verbatim>\<open>for (let i = 0; i < count; i++)\<close>, on the list of its
  values of \<^verbatim>\<open>i\<close>; a throw of \<^verbatim>\<open>_generateSingleWallet\<close> leaves the loop.\<close>

fun generateBatchLoop :: "entropy \<Rightarrow> string \<Rightarrow> nat \<Rightarrow> nat list \<Rightarrow> wallet list \<Rightarrow> error + wallet list" where
  "generateBatchLoop ent chain startIndex [] ws = Inr ws"
| "generateBatchLoop ent chain startIndex (i # is) ws =
     (case generateSingleWallet ent chain (startIndex + i) of
        Inl e \<Rightarrow> Inl e
      | Inr w \<Rightarrow> generateBatchLoop ent chain startIndex is (ws @ [w]))"

definition generateBatch :: "entropy \<Rightarrow> nat \<Rightarrow> string \<Rightarrow> nat \<Rightarrow> error + wallet list" where
  "generateBatch ent count chain startIndex = generateBatchLoop ent chain startIndex [0..<count] []"

definition batchSize :: nat where
  "batchSize = 100"

text \<open>The loop of \<^verbatim>\<open>generateWallets\<close>:
  \<^verbatim>\<open>for (let i = 0; i < count; i += batchSize)\<close>. The start index handed to
  \<^verbatim>\<open>_generateBatch\<close> is the loop variable \<^verbatim>\<open>i\<close>. The progress display and the
  pause after each batch do not touch the wallets and are left out.\<close>

function generateLoop :: "entropy \<Rightarrow> string \<Rightarrow> nat \<Rightarrow> nat \<Rightarrow> wallet list \<Rightarrow> error + wallet list" where
  "generateLoop ent chain count i newWallets =
     (if i < count then
        (case generateBatch ent (min batchSize (count - i)) chain i of
           Inl e \<Rightarrow> Inl e
         | Inr batchWallets \<Rightarrow> generateLoop ent chain count (i + batchSize) (newWallets @ batchWallets))
      else Inr newWallets)"
  by pat_completeness auto
termination
  by (relation "measure (\<lambda>(ent, chain, count, i, ws). count - i)") (auto simp: batchSize_def)

subsection \<open>Encryption and the bulk save\<close>

text \<open>
  \<^verbatim>\<open>encrypt\<close> of crypto.js. The browser's AES-GCM is a parameter \<open>aes\<close> that
  tells how the \<^verbatim>\<open>try\<close> block ends for a non-empty text:
  \<^item> \<open>RaisedAtOnce\<close>: an exception before any operation of \<^verbatim>\<open>crypto.subtle\<close> was
    started (\<^verbatim>\<open>crypto.subtle\<close> is undefined, the stored key does not parse); the
    \<^verbatim>\<open>catch\<close> returns \<^verbatim>\<open>data\<close> and control never went back to the event loop;
  \<^item> \<open>Encrypted c\<close>: the operations of \<^verbatim>\<open>crypto.subtle\<close> resolved and the base64
    text \<open>c\<close> is returned, after control went back to the event loop;
  \<^item> \<open>RejectedLater\<close>: an operation of \<^verbatim>\<open>crypto.subtle\<close> rejected; the
    \<^verbatim>\<open>catch\<close> returns \<^verbatim>\<open>data\<close>, after control went back to the event loop.
  The result of \<open>encrypt\<close> is the text returned and whether control went back to the
  event loop before it was.
\<close>

datatype aesOutcome = RaisedAtOnce | Encrypted string | RejectedLater

definition encrypt :: "(string \<Rightarrow> aesOutcome) \<Rightarrow> string \<Rightarrow> string \<times> bool" where
  "encrypt aes data =
     (if data = [] then (data, False)
      else (case aes data of
              RaisedAtOnce \<Rightarrow> (data, False)
            | Encrypted c \<Rightarrow> (c, True)
            | RejectedLater \<Rightarrow> (data, True)))"

text \<open>The object \<^verbatim>\<open>encryptedWallet\<close> built in the loop of \<^verbatim>\<open>saveWallets\<close>, and
  whether one of its two calls of \<^verbatim>\<open>encrypt\<close> gave control back to the event loop.\<close>

definition encryptedWallet :: "(string \<Rightarrow> aesOutcome) \<Rightarrow> wallet \<Rightarrow> wallet" where
  "encryptedWallet aes w =
     w\<lparr>privateKey := fst (encrypt aes (privateKey w)), mnemonic := fst (encrypt aes (mnemonic w))\<rparr>"

definition suspends :: "(string \<Rightarrow> aesOutcome) \<Rightarrow> wallet \<Rightarrow> bool" where
  "suspends aes w = (snd (encrypt aes (privateKey w)) \<or> snd (encrypt aes (mnemonic w)))"

text \<open>
  \<^verbatim>\<open>saveWallets\<close> works on the database that \<^verbatim>\<open>openDB\<close> resolved, with one
  transaction: \<^verbatim>\<open>store.clear()\<close>, then for each wallet two calls of \<^verbatim>\<open>encrypt\<close> and
  \<^verbatim>\<open>store.add\<close>. The requests are only placed by these calls. A transaction stays active
  until control goes back to the event loop; then the requests placed so far are carried
  out and the transaction commits. So the loop places the records of the wallets as long
  as no call of \<^verbatim>\<open>encrypt\<close> gives control back; at the first wallet where one does,
  \<^verbatim>\<open>store.add\<close> throws \<open>TransactionInactiveError\<close>, which leaves \<^verbatim>\<open>saveWallets\<close>.
\<close>

fun addLoop ::
  "(string \<Rightarrow> aesOutcome) \<Rightarrow> wallet list \<Rightarrow> wallet list \<Rightarrow> error option \<times> wallet list" where
  "addLoop aes [] placed = (None, placed)"
| "addLoop aes (w # ws) placed =
     (if suspends aes w then (Some TransactionInactiveError, placed)
      else addLoop aes ws (placed @ [encryptedWallet aes w]))"

text \<open>
  Carrying out \<^verbatim>\<open>clear\<close> and the placed \<^verbatim>\<open>add\<close> requests on the store with key
  path \<^verbatim>\<open>index\<close>: an \<^verbatim>\<open>add\<close> whose key is already in the store fails, nothing
  handles the error, and the transaction aborts, which restores the content from before
  the \<^verbatim>\<open>clear\<close>. Otherwise the store holds the placed records.
\<close>

definition commit :: "wallet list \<Rightarrow> wallet list \<Rightarrow> wallet list" where
  "commit old placed = (if distinct (map index placed) then sort_key index placed else old)"

definition saveWallets ::
  "(string \<Rightarrow> aesOutcome) \<Rightarrow> walletManager \<Rightarrow> error option \<times> walletManager" where
  "saveWallets aes wm =
     (case db wm of
        None \<Rightarrow> (None, wm)
      | Some old \<Rightarrow>
          (case addLoop aes (wallets wm) [] of
             (r, placed) \<Rightarrow> (r, wm\<lparr>db := Some (commit old placed)\<rparr>)))"

text \<open>\<^verbatim>\<open>generateWallets\<close>: the result is the error thrown or the array returned,
  together with the manager afterwards. The new wallets are pushed onto
  \<^verbatim>\<open>this.wallets\<close> before \<^verbatim>\<open>saveWallets\<close> is awaited, and an error of the save
  leaves the function with the wallets pushed. \<open>count\<close> is the integer the caller
  parsed.\<close>

definition generateWallets ::
  "entropy \<Rightarrow> (string \<Rightarrow> aesOutcome) \<Rightarrow> int \<Rightarrow> string \<Rightarrow> walletManager
     \<Rightarrow> (error + wallet list) \<times> walletManager" where
  "generateWallets ent aes count chain wm =
     (if count < 1 \<or> count > 20000 then (Inl ValidationError, wm)
      else (case generateLoop ent chain (nat count) 0 [] of
              Inl e \<Rightarrow> (Inl e, wm)
            | Inr newWallets \<Rightarrow>
                (case saveWallets aes (wm\<lparr>wallets := wallets wm @ newWallets\<rparr>) of
                   (None, wm') \<Rightarrow> (Inr newWallets, wm')
                 | (Some e, wm') \<Rightarrow> (Inl e, wm'))))"


subsection \<open>Completion bookkeeping\<close>

text \<open>\<^verbatim>\<open>getWalletByIndex\<close> is \<^verbatim>\<open>this.wallets.find(w => w.index === index)\<close>: the first
  object with that index, given here by its position in the array.\<close>

fun getWalletByIndex :: "nat \<Rightarrow> wallet list \<Rightarrow> nat option" where
  "getWalletByIndex i [] = None"
| "getWalletByIndex i (w # ws) =
     (if index w = i then Some 0 else map_option Suc (getWalletByIndex i ws))"

text \<open>\<^verbatim>\<open>markTestnetCompleted\<close>: the error of the save, if any, and the manager
  afterwards.\<close>

definition markTestnetCompleted ::
  "(string \<Rightarrow> aesOutcome) \<Rightarrow> nat \<Rightarrow> string \<Rightarrow> walletManager \<Rightarrow> error option \<times> walletManager" where
  "markTestnetCompleted aes walletIndex testnetName wm =
     (case getWalletByIndex walletIndex (wallets wm) of
        None \<Rightarrow> (None, wm)
      | Some p \<Rightarrow>
          if testnetName \<in> set (completed (wallets wm ! p)) then (None, wm)
          else saveWallets aes
                 (wm\<lparr>wallets := (wallets wm)
                        [p := (wallets wm ! p)\<lparr>completed := completed (wallets wm ! p) @ [testnetName]\<rparr>]\<rparr>))"

section \<open>The persistent store (db.js)\<close>

text \<open>
  An entry of a backup document is a JSON object, given by its properties; of a property
  value only what matters to a key is kept: a number, a string, or anything else. Of the
  keys of IndexedDB the numbers and the strings are covered; a value of another kind
  (\<^verbatim>\<open>null\<close>, a boolean, an object, an array) is \<open>JOther\<close> and counts as no key.
\<close>

datatype jsValue = JNumber rat | JString string | JOther

type_synonym item = "string \<rightharpoonup> jsValue"

datatype idbKey = NumberKey rat | StringKey string

text \<open>
  An object store as \<^verbatim>\<open>openDB\<close> creates it: its key path, whether it has a key
  generator (\<^verbatim>\<open>autoIncrement\<close>), the current number of the generator, and its records
  by key. The database maps a name to its store; a name that \<^verbatim>\<open>openDB\<close> never created
  has no store, and \<^verbatim>\<open>db.transaction\<close> on it throws.
\<close>

record objectStore =
  keyPath :: string
  autoIncrement :: bool
  generator :: int
  records :: "idbKey \<rightharpoonup> item"

type_synonym database = "string \<rightharpoonup> objectStore"

text \<open>The stores of \<^verbatim>\<open>onupgradeneeded\<close>, on a database that is new.\<close>

definition openDB :: database where
  "openDB =
     [''wallets'' \<mapsto> \<lparr>keyPath = ''index'', autoIncrement = False, generator = 1, records = Map.empty\<rparr>,
      ''settings'' \<mapsto> \<lparr>keyPath = ''key'', autoIncrement = False, generator = 1, records = Map.empty\<rparr>,
      ''history'' \<mapsto> \<lparr>keyPath = ''id'', autoIncrement = True, generator = 1, records = Map.empty\<rparr>,
      ''testnets'' \<mapsto> \<lparr>keyPath = ''name'', autoIncrement = False, generator = 1, records = Map.empty\<rparr>,
      ''completed'' \<mapsto> \<lparr>keyPath = ''id'', autoIncrement = True, generator = 1, records = Map.empty\<rparr>]"

datatype dbError =
    InvalidImportData   \<comment> \<open>\<^verbatim>\<open>'Invalid import data'\<close>\<close>
  | NotFoundError       \<comment> \<open>\<^verbatim>\<open>db.transaction\<close> on a store that does not exist\<close>
  | DataError           \<comment> \<open>\<^verbatim>\<open>store.add\<close> of an item without a usable key\<close>

record exportData =
  version :: nat
  exportedAt :: nat     \<comment> \<open>the field \<^verbatim>\<open>timestamp\<close>\<close>
  data :: "(string \<times> item list) list option"

text \<open>
  \<^verbatim>\<open>store.add(item)\<close> in two parts. When it is called, the key of the item is looked
  up at the key path: \<open>keyOf\<close> is that key, if the property holds a valid one. The call
  throws \<open>DataError\<close> unless the item is \<open>placeable\<close>: the property holds a valid
  key, or it is absent and the store has a key generator.
\<close>

definition keyOf :: "objectStore \<Rightarrow> item \<Rightarrow> idbKey option" where
  "keyOf st x =
     (case x (keyPath st) of
        Some (JNumber n) \<Rightarrow> Some (NumberKey n)
      | Some (JString t) \<Rightarrow> Some (StringKey t)
      | Some JOther \<Rightarrow> None
      | None \<Rightarrow> None)"

definition placeable :: "objectStore \<Rightarrow> item \<Rightarrow> bool" where
  "placeable st x =
     (case x (keyPath st) of
        Some JOther \<Rightarrow> False
      | Some v \<Rightarrow> True
      | None \<Rightarrow> autoIncrement st)"

text \<open>
  When the request is carried out, the record is stored under its key, or under the
  number of the key generator, which is then also written into the record at the key
  path; a number used as key moves the generator past it. A key that is already in the
  store makes the request fail (\<open>None\<close>).
\<close>

definition addRecord :: "objectStore \<Rightarrow> item \<Rightarrow> objectStore option" where
  "addRecord st x =
     (case keyOf st x of
        Some k \<Rightarrow>
          if records st k \<noteq> None then None
          else Some (st\<lparr>records := (records st)(k \<mapsto> x),
                        generator := (case k of
                                        NumberKey n \<Rightarrow> if autoIncrement st \<and> of_int (generator st) \<le> n
                                                       then \<lfloor>n\<rfloor> + 1 else generator st
                                      | StringKey t \<Rightarrow> generator st)\<rparr>)
      | None \<Rightarrow>
          if records st (NumberKey (of_int (generator st))) \<noteq> None then None
          else Some (st\<lparr>records := (records st)
                                     (NumberKey (of_int (generator st))
                                        \<mapsto> x(keyPath st \<mapsto> JNumber (of_int (generator st)))),
                        generator := generator st + 1\<rparr>))"

fun runAdds :: "objectStore \<Rightarrow> item list \<Rightarrow> objectStore option" where
  "runAdds st [] = Some st"
| "runAdds st (x # xs) =
     (case addRecord st x of
        None \<Rightarrow> None
      | Some st' \<Rightarrow> runAdds st' xs)"

text \<open>
  One transaction of \<^verbatim>\<open>importData\<close> on a store: \<^verbatim>\<open>clear\<close> and the \<^verbatim>\<open>add\<close> requests
  that were placed are carried out in order. A failed \<^verbatim>\<open>add\<close> is handled by nobody, so
  the transaction aborts and the store is as before the \<^verbatim>\<open>clear\<close>.
\<close>

definition commitStore :: "objectStore \<Rightarrow> item list \<Rightarrow> objectStore" where
  "commitStore old placed =
     (case runAdds (old\<lparr>records := Map.empty\<rparr>) placed of
        None \<Rightarrow> old
      | Some st \<Rightarrow> st)"

text \<open>
  The loop over \<^verbatim>\<open>Object.entries(importData.data)\<close>: the guard
  \<^verbatim>\<open>if (items && items.length > 0)\<close>, then the transaction. The items are placed up to
  the first one on which \<^verbatim>\<open>store.add\<close> throws; that error leaves \<^verbatim>\<open>importData\<close>,
  while the requests already placed are still carried out.
\<close>

fun importEntries :: "(string \<times> item list) list \<Rightarrow> database \<Rightarrow> dbError option \<times> database" where
  "importEntries [] d = (None, d)"
| "importEntries ((storeName, items) # rest) d =
     (if items \<noteq> [] then
        (case d storeName of
           None \<Rightarrow> (Some NotFoundError, d)
         | Some old \<Rightarrow>
             (if list_all (placeable old) items
              then importEntries rest (d(storeName \<mapsto> commitStore old items))
              else (Some DataError,
                    d(storeName \<mapsto> commitStore old (takeWhile (placeable old) items)))))
      else importEntries rest d)"

definition importData :: "exportData option \<Rightarrow> database \<Rightarrow> dbError option \<times> database" where
  "importData doc d =
     (case doc of
        None \<Rightarrow> (Some InvalidImportData, d)
      | Some x \<Rightarrow>
          (case data x of
             None \<Rightarrow> (Some InvalidImportData, d)
           | Some entries \<Rightarrow> importEntries entries d))"

section \<open>Cascade funding (cascadeFunding.js)\<close>

datatype fundError =
    InsufficientGas       \<comment> \<open>\<^verbatim>\<open>'Transaction failed: insufficient gas'\<close>\<close>
  | NetworkCongestion     \<comment> \<open>\<^verbatim>\<open>'Transaction failed: network congestion'\<close>\<close>
  | InsufficientBalance   \<comment> \<open>\<^verbatim>\<open>'Insufficient balance to send'\<close>\<close>

text \<open>The lines handed to \<^verbatim>\<open>logActivity\<close>, and the toast that ends a call.\<close>

datatype activity =
    ForwardStarting            \<comment> \<open>\<^verbatim>\<open>'Starting forward cascade funding...'\<close>\<close>
  | FundFirstManually          \<comment> \<open>\<^verbatim>\<open>'Please fund the first wallet manually'\<close>\<close>
  | FundingLink nat            \<comment> \<open>\<^verbatim>\<open>`Funding wallet ${i + 2} from wallet ${i + 1}`\<close>\<close>
  | LinkFunded nat             \<comment> \<open>\<^verbatim>\<open>`Wallet ${i + 2} funded successfully`\<close>\<close>
  | LinkFailed nat fundError   \<comment> \<open>\<^verbatim>\<open>`Failed to fund wallet ${i + 2}: ${error.message}`\<close>\<close>
  | ForwardCompleted           \<comment> \<open>\<^verbatim>\<open>'Forward cascade completed!'\<close>\<close>
  | ReverseStarting            \<comment> \<open>\<^verbatim>\<open>'Starting reverse cascade funding...'\<close>\<close>
  | SendingFrom nat string     \<comment> \<open>\<^verbatim>\<open>`Sending from wallet ${i + 1} to ...`\<close>, with the target address\<close>
  | FundsSent nat              \<comment> \<open>\<^verbatim>\<open>`Wallet ${i + 1} funds sent successfully`\<close>\<close>
  | SendFailed nat fundError   \<comment> \<open>\<^verbatim>\<open>`Failed to send from wallet ${i + 1}: ${error.message}`\<close>\<close>
  | ReverseCompleted           \<comment> \<open>\<^verbatim>\<open>'Reverse cascade completed!'\<close>\<close>

datatype fundToast =
    AlreadyInProgress          \<comment> \<open>\<^verbatim>\<open>'Funding already in progress'\<close>\<close>
  | NeedTwoWallets             \<comment> \<open>\<^verbatim>\<open>'Need at least 2 wallets for cascade funding'\<close>\<close>
  | NoWalletsAvailable         \<comment> \<open>\<^verbatim>\<open>'No wallets available'\<close>\<close>
  | NoDestination              \<comment> \<open>\<^verbatim>\<open>'Please provide a destination address'\<close>\<close>
  | ForwardDone                \<comment> \<open>\<^verbatim>\<open>'Forward funding completed'\<close>\<close>
  | FundingFailed fundError    \<comment> \<open>\<^verbatim>\<open>`Funding failed: ${error.message}`\<close>\<close>
  | ReverseDone                \<comment> \<open>\<^verbatim>\<open>'Reverse funding completed'\<close>\<close>

text \<open>
  The environment of one cascade call: \<open>fundRandom env i\<close> is the value of
  \<^verbatim>\<open>Math.random()\<close> in the failure check of the transfer of loop index \<open>i\<close>, and
  \<open>stopRequested env i\<close> tells whether \<^verbatim>\<open>stop()\<close> is called while iteration \<open>i\<close> is
  suspended at one of its \<^verbatim>\<open>await\<close>s.
\<close>

record fundEnv =
  fundRandom :: "nat \<Rightarrow> rat"
  stopRequested :: "nat \<Rightarrow> bool"

text \<open>The singleton \<^verbatim>\<open>CascadeFunding\<close> with the array \<^verbatim>\<open>walletManager.getWallets()\<close>
  whose objects it mutates in place; a wallet object is its position in the array.\<close>

record cascadeFunding =
  isRunningF :: bool              \<comment> \<open>the field \<^verbatim>\<open>isRunning\<close> of \<^verbatim>\<open>CascadeFunding\<close>\<close>
  fundWallets :: "wallet list"

text \<open>\<^verbatim>\<open>Number.prototype.toFixed(6)\<close>: the nearest multiple of \<open>10\<^sup>-\<^sup>6\<close>, ties away
  from zero.\<close>

definition toFixed6 :: "rat \<Rightarrow> rat" where
  "toFixed6 x =
     (if x < 0 then - (of_int \<lfloor>- x * 1000000 + 1 / 2\<rfloor> / 1000000)
      else of_int \<lfloor>x * 1000000 + 1 / 2\<rfloor> / 1000000)"

definition simulateFunding ::
  "rat \<Rightarrow> rat \<Rightarrow> rat \<Rightarrow> nat \<Rightarrow> wallet list \<Rightarrow> (fundError + rat) \<times> wallet list" where
  "simulateFunding r amount gasBuffer i ws =
     (if r < 1 / 10 then (Inl InsufficientGas, ws)
      else
        (let amountToSend = amount - gasBuffer;
             ws1 = ws[i := (ws ! i)\<lparr>balance := toFixed6 (balance (ws ! i) - amount)\<rparr>];
             ws2 = ws1[Suc i := (ws1 ! Suc i)\<lparr>balance := toFixed6 (balance (ws1 ! Suc i) + amountToSend)\<rparr>]
         in (Inr amountToSend, ws2)))"

definition gasReserve :: rat where
  "gasReserve = 1 / 1000"

definition simulateReverseFunding ::
  "rat \<Rightarrow> nat \<Rightarrow> wallet list \<Rightarrow> (fundError + rat) \<times> wallet list" where
  "simulateReverseFunding r i ws =
     (if r < 5 / 100 then (Inl NetworkCongestion, ws)
      else
        (let amountToSend = max 0 (balance (ws ! i) - gasReserve)
         in if amountToSend \<le> 0 then (Inl InsufficientBalance, ws)
            else (Inr amountToSend, ws[i := (ws ! i)\<lparr>balance := toFixed6 gasReserve\<rparr>])))"



text \<open>The loop of \<^verbatim>\<open>fundReverse\<close>, \<^verbatim>\<open>for (let i = wallets.length - 1; i >= 0; i--)\<close>;
  its \<^verbatim>\<open>catch\<close> logs and goes on.\<close>

fun reverseLoop ::
  "fundEnv \<Rightarrow> string \<Rightarrow> nat list \<Rightarrow> cascadeFunding \<Rightarrow> activity list \<times> cascadeFunding" where
  "reverseLoop env destinationAddress [] s = ([], s)"
| "reverseLoop env destinationAddress (i # is) s =
     (if \<not> isRunningF s then ([], s)
      else
        (let toAddress = (if i > 0 then address (fundWallets s ! (i - 1)) else destinationAddress)
         in case simulateReverseFunding (fundRandom env i) i (fundWallets s) of
              (r, ws) \<Rightarrow>
                (case reverseLoop env destinationAddress is
                        (s\<lparr>fundWallets := ws, isRunningF := \<not> stopRequested env i\<rparr>) of
                   (lines, s') \<Rightarrow>
                     (SendingFrom i toAddress
                        # (case r of Inl e \<Rightarrow> SendFailed i e | Inr sent \<Rightarrow> FundsSent i)
                        # lines, s'))))"

definition fundReverse ::
  "fundEnv \<Rightarrow> string \<Rightarrow> cascadeFunding \<Rightarrow> fundToast \<times> activity list \<times> cascadeFunding" where
  "fundReverse env destinationAddress s =
     (if isRunningF s then (AlreadyInProgress, [], s)
      else if length (fundWallets s) < 1 then (NoWalletsAvailable, [], s)
      else if destinationAddress = [] then (NoDestination, [], s)
      else
        (case reverseLoop env destinationAddress (rev [0..<length (fundWallets s)])
                (s\<lparr>isRunningF := True\<rparr>) of
           (lines, s') \<Rightarrow>
             (ReverseDone, [ReverseStarting] @ lines @ [ReverseCompleted],
              s'\<lparr>isRunningF := False\<rparr>)))"

text \<open>The wallets for which a transfer was started, in the order of the log.\<close>

fun attempts :: "activity list \<Rightarrow> nat list" where
  "attempts [] = []"
| "attempts (FundingLink i # lines) = i # attempts lines"
| "attempts (SendingFrom i a # lines) = i # attempts lines"
| "attempts (l # lines) = attempts lines"


section \<open>Task execution (the module TestnetExecutor)\<close>

record executionStats =
  totalTasks :: nat
  completedN :: nat     \<comment> \<open>the field \<^verbatim>\<open>completed\<close> of \<^verbatim>\<open>this.stats\<close>\<close>
  successful :: nat
  failed :: nat

record testnet =
  name :: string
  tasks :: "string list option"   \<comment> \<open>\<open>None\<close>: the descriptor has no \<^verbatim>\<open>tasks\<close>\<close>

text \<open>Of the options only \<^verbatim>\<open>randomizeOrder\<close> changes what is executed;
  \<^verbatim>\<open>walletDelay\<close> and \<^verbatim>\<open>testnetDelay\<close> are pauses and \<^verbatim>\<open>randomizeGas\<close> changes an
  amount that is returned and dropped.\<close>

record config =
  randomizeOrder :: bool

datatype taskError =
    FaucetClaimFailed | SwapFailed | BridgeFailed | NFTMintFailed | StakeFailed | CustomTaskFailed
  | SaveFailed error    \<comment> \<open>the error that left \<^verbatim>\<open>markTestnetCompleted\<close>\<close>

datatype execError =
    NoWalletsError     \<comment> \<open>\<^verbatim>\<open>'No wallets available. Please generate wallets first.'\<close>\<close>
  | NoTestnetsError    \<comment> \<open>\<^verbatim>\<open>'No testnets available to execute.'\<close>\<close>

datatype execToast =
    AutomationAlreadyRunning    \<comment> \<open>\<^verbatim>\<open>'Automation already running'\<close>\<close>
  | CompletedToast nat nat      \<comment> \<open>\<^verbatim>\<open>`Completed: ${successful}/${totalTasks}`\<close>\<close>
  | AutomationStopped           \<comment> \<open>\<^verbatim>\<open>'Automation stopped'\<close>\<close>
  | ErrorToast execError

text \<open>
  The trace of a run lists the value of \<^verbatim>\<open>this.stats\<close> after the reset, after
  \<^verbatim>\<open>totalTasks\<close> is assigned and after each wallet of each testnet, with what
  happened there: the wallet at a position of the array was skipped, completed the
  testnet, or failed. The two increments for one wallet are not separated by an
  \<^verbatim>\<open>await\<close>, so every value that a caller of \<^verbatim>\<open>getStats()\<close> can read during a run
  is in the trace.
\<close>

datatype unitEvent =
    RunReset
  | TotalSet
  | Skipped string nat
  | Succeeded string nat
  | FailedUnit string nat taskError

type_synonym trace = "(unitEvent \<times> executionStats) list"

text \<open>
  The environment of one run, by position: testnet \<open>ti\<close> of the ordered list, the
  \<open>wi\<close>-th wallet visited for it, its \<open>k\<close>-th task. \<open>taskRandom\<close> is the value of
  \<^verbatim>\<open>Math.random()\<close> that decides the task, \<open>shuffleTestnetsR\<close> and \<open>shuffleWalletsR\<close>
  are the values drawn by \<^verbatim>\<open>shuffleArray\<close> at its loop index, and the three \<open>stop\<close>
  fields tell whether \<^verbatim>\<open>stop()\<close> is called while the run is suspended in that task
  (or the pause after it), after that wallet (the save, the wallet delay), or in the delay
  after that testnet.
\<close>

record execEnv =
  taskRandom :: "nat \<Rightarrow> nat \<Rightarrow> nat \<Rightarrow> rat"
  shuffleTestnetsR :: "nat \<Rightarrow> rat"
  shuffleWalletsR :: "nat \<Rightarrow> nat \<Rightarrow> rat"
  stopInTask :: "nat \<Rightarrow> nat \<Rightarrow> nat \<Rightarrow> bool"
  stopAfterWallet :: "nat \<Rightarrow> nat \<Rightarrow> bool"
  stopAfterTestnet :: "nat \<Rightarrow> bool"

text \<open>The singleton \<^verbatim>\<open>TestnetExecutor\<close> together with the wallet manager it imports.\<close>

record testnetExecutor =
  isRunning :: bool
  stats :: executionStats
  manager :: walletManager

text \<open>\<^verbatim>\<open>shuffleArray\<close> of helpers.js: \<^verbatim>\<open>for (let i = shuffled.length - 1; i > 0; i--)\<close>
  with \<^verbatim>\<open>j = Math.floor(Math.random() * (i + 1))\<close> and a swap of the two places.\<close>

fun shuffleLoop :: "(nat \<Rightarrow> rat) \<Rightarrow> nat \<Rightarrow> 'a list \<Rightarrow> 'a list" where
  "shuffleLoop r 0 shuffled = shuffled"
| "shuffleLoop r (Suc i) shuffled =
     (let j = nat \<lfloor>r (Suc i) * (of_nat (Suc i) + 1)\<rfloor>
      in shuffleLoop r i (shuffled[Suc i := shuffled ! j, j := shuffled ! Suc i]))"

definition shuffleArray :: "(nat \<Rightarrow> rat) \<Rightarrow> 'a list \<Rightarrow> 'a list" where
  "shuffleArray r array = shuffleLoop r (length array - 1) array"

text \<open>\<^verbatim>\<open>executeTask\<close> with the six task functions: each throws unless
  \<^verbatim>\<open>Math.random()\<close> exceeds its threshold; an unknown tag is only warned about.\<close>

definition executeTask :: "rat \<Rightarrow> string \<Rightarrow> taskError option" where
  "executeTask r taskType =
     (if taskType = ''faucet'' then (if r > 1 / 10 then None else Some FaucetClaimFailed)
      else if taskType = ''swap'' then (if r > 15 / 100 then None else Some SwapFailed)
      else if taskType = ''bridge'' then (if r > 1 / 10 then None else Some BridgeFailed)
      else if taskType = ''nft_mint'' then (if r > 1 / 10 then None else Some NFTMintFailed)
      else if taskType = ''stake'' then (if r > 15 / 100 then None else Some StakeFailed)
      else if taskType = ''custom'' then (if r > 2 / 10 then None else Some CustomTaskFailed)
      else None)"

text \<open>\<^verbatim>\<open>executeWalletTasks\<close>: the result is the error thrown, if any, and the value of
  \<^verbatim>\<open>this.isRunning\<close> when the function is left.\<close>

fun executeWalletTasks ::
  "execEnv \<Rightarrow> nat \<Rightarrow> nat \<Rightarrow> string list \<Rightarrow> nat \<Rightarrow> bool \<Rightarrow> taskError option \<times> bool" where
  "executeWalletTasks env ti wi [] k running = (None, running)"
| "executeWalletTasks env ti wi (task # rest) k running =
     (if \<not> running then (None, running)
      else
        (case executeTask (taskRandom env ti wi k) task of
           Some e \<Rightarrow> (Some e, \<not> stopInTask env ti wi k)
         | None \<Rightarrow> executeWalletTasks env ti wi rest (Suc k) (\<not> stopInTask env ti wi k)))"

text \<open>The body of the loop of \<^verbatim>\<open>executeTestnet\<close> for the wallet at position \<open>p\<close>, after
  the check of \<^verbatim>\<open>this.isRunning\<close>. The \<^verbatim>\<open>try\<close> block holds the tasks and
  \<^verbatim>\<open>markTestnetCompleted\<close>; an error of either is caught and counted as failed.\<close>

definition walletStep ::
  "execEnv \<Rightarrow> (string \<Rightarrow> aesOutcome) \<Rightarrow> testnet \<Rightarrow> nat \<Rightarrow> nat \<Rightarrow> nat \<Rightarrow> testnetExecutor
     \<Rightarrow> (unitEvent \<times> executionStats) \<times> testnetExecutor" where
  "walletStep env aes t ti p wi s =
     (let wallet = wallets (manager s) ! p in
      if name t \<in> set (completed wallet) then
        (let s1 = s\<lparr>stats := (stats s)\<lparr>completedN := completedN (stats s) + 1\<rparr>\<rparr>
         in ((Skipped (name t) p, stats s1), s1))
      else
        (case executeWalletTasks env ti wi
                (case tasks t of None \<Rightarrow> [''custom''] | Some ts \<Rightarrow> ts) 0 True of
           (None, running) \<Rightarrow>
             (case markTestnetCompleted aes (index wallet) (name t) (manager s) of
                (None, m) \<Rightarrow>
                  (let s1 = s\<lparr>isRunning := running \<and> \<not> stopAfterWallet env ti wi,
                              manager := m,
                              stats := (stats s)\<lparr>successful := successful (stats s) + 1,
                                                completedN := completedN (stats s) + 1\<rparr>\<rparr>
                   in ((Succeeded (name t) p, stats s1), s1))
              | (Some e, m) \<Rightarrow>
                  (let s1 = s\<lparr>isRunning := running \<and> \<not> stopAfterWallet env ti wi,
                              manager := m,
                              stats := (stats s)\<lparr>failed := failed (stats s) + 1,
                                                completedN := completedN (stats s) + 1\<rparr>\<rparr>
                   in ((FailedUnit (name t) p (SaveFailed e), stats s1), s1)))
         | (Some e, running) \<Rightarrow>
             (let s1 = s\<lparr>isRunning := running \<and> \<not> stopAfterWallet env ti wi,
                         stats := (stats s)\<lparr>failed := failed (stats s) + 1,
                                           completedN := completedN (stats s) + 1\<rparr>\<rparr>
              in ((FailedUnit (name t) p e, stats s1), s1))))"

fun walletLoop ::
  "execEnv \<Rightarrow> (string \<Rightarrow> aesOutcome) \<Rightarrow> testnet \<Rightarrow> nat \<Rightarrow> nat list \<Rightarrow> nat \<Rightarrow> testnetExecutor
     \<Rightarrow> trace \<times> testnetExecutor" where
  "walletLoop env aes t ti [] wi s = ([], s)"
| "walletLoop env aes t ti (p # ps) wi s =
     (if \<not> isRunning s then ([], s)
      else
        (case walletStep env aes t ti p wi s of
           (seen, s1) \<Rightarrow>
             (case walletLoop env aes t ti ps (Suc wi) s1 of
                (tr, s') \<Rightarrow> (seen # tr, s'))))"

text \<open>\<^verbatim>\<open>executeTestnet\<close>: the wallets are visited in the order of the array, or of a
  shuffled copy of it (the copy holds the same objects).\<close>

definition executeTestnet ::
  "execEnv \<Rightarrow> (string \<Rightarrow> aesOutcome) \<Rightarrow> config \<Rightarrow> testnet \<Rightarrow> nat \<Rightarrow> testnetExecutor
     \<Rightarrow> trace \<times> testnetExecutor" where
  "executeTestnet env aes cfg t ti s =
     (let positions = [0..<length (wallets (manager s))];
          orderedWallets = (if randomizeOrder cfg then shuffleArray (shuffleWalletsR env ti) positions
                            else positions)
      in walletLoop env aes t ti orderedWallets 0 s)"

fun testnetLoop ::
  "execEnv \<Rightarrow> (string \<Rightarrow> aesOutcome) \<Rightarrow> config \<Rightarrow> testnet list \<Rightarrow> nat \<Rightarrow> testnetExecutor
     \<Rightarrow> trace \<times> testnetExecutor" where
  "testnetLoop env aes cfg [] ti s = ([], s)"
| "testnetLoop env aes cfg (t # ts) ti s =
     (if \<not> isRunning s then ([], s)
      else
        (case executeTestnet env aes cfg t ti s of
           (tr1, s1) \<Rightarrow>
             (case testnetLoop env aes cfg ts (Suc ti)
                     (s1\<lparr>isRunning := isRunning s1 \<and> \<not> stopAfterTestnet env ti\<rparr>) of
                (tr2, s') \<Rightarrow> (tr1 @ tr2, s'))))"

definition zeroStats :: executionStats where
  "zeroStats = \<lparr>totalTasks = 0, completedN = 0, successful = 0, failed = 0\<rparr>"

definition executeAll ::
  "execEnv \<Rightarrow> (string \<Rightarrow> aesOutcome) \<Rightarrow> testnet list \<Rightarrow> config \<Rightarrow> testnetExecutor
     \<Rightarrow> execToast \<times> trace \<times> testnetExecutor" where
  "executeAll env aes testnets cfg s =
     (if isRunning s then (AutomationAlreadyRunning, [], s)
      else
        (let s0 = s\<lparr>isRunning := True, stats := zeroStats\<rparr> in
         if wallets (manager s0) = [] then
           (ErrorToast NoWalletsError, [(RunReset, zeroStats)], s0\<lparr>isRunning := False\<rparr>)
         else if testnets = [] then
           (ErrorToast NoTestnetsError, [(RunReset, zeroStats)], s0\<lparr>isRunning := False\<rparr>)
         else
           (let orderedTestnets = (if randomizeOrder cfg then shuffleArray (shuffleTestnetsR env) testnets
                                   else testnets);
                s1 = s0\<lparr>stats := (stats s0)\<lparr>totalTasks :=
                                    length orderedTestnets * length (wallets (manager s0))\<rparr>\<rparr>
            in case testnetLoop env aes cfg orderedTestnets 0 s1 of
                 (tr, s2) \<Rightarrow>
                   ((if isRunning s2 then CompletedToast (successful (stats s2)) (totalTasks (stats s2))
                     else AutomationStopped),
                    (RunReset, zeroStats) # (TotalSet, stats s1) # tr,
                    s2\<lparr>isRunning := False\<rparr>))))"

text \<open>The number of skipped wallets in a trace, and the check of every entry of a trace
  against the counters: \<open>sk\<close> wallets were skipped before the trace begins.\<close>

fun isSkipped :: "unitEvent \<Rightarrow> bool" where
  "isSkipped (Skipped n p) = True"
| "isSkipped ev = False"

definition skips :: "trace \<Rightarrow> nat" where
  "skips tr = length (filter (\<lambda>e. isSkipped (fst e)) tr)"

fun countersAgree :: "nat \<Rightarrow> trace \<Rightarrow> bool" where
  "countersAgree sk [] = True"
| "countersAgree sk ((ev, st) # tr) =
     (completedN st = successful st + failed st + (sk + skips [(ev, st)]) \<and>
      completedN st \<le> totalTasks st \<and>
      countersAgree (sk + skips [(ev, st)]) tr)"

section \<open>Sample inputs\<close>

definition sampleWallet :: "nat \<Rightarrow> rat \<Rightarrow> string list \<Rightarrow> wallet" where
  "sampleWallet i b done =
     \<lparr>index = i, chainType = ''evm'', address = ''0x0000000000000000000000000000000000000000'',
      privateKey = ''c0ffee'', mnemonic = ''abandon ability able'', timestamp = 0,
      balance = b, completed = done\<rparr>"

definition sampleEnv :: "rat \<Rightarrow> execEnv" where
  "sampleEnv r =
     \<lparr>taskRandom = (\<lambda>ti wi k. r), shuffleTestnetsR = (\<lambda>i. 1 / 2), shuffleWalletsR = (\<lambda>ti i. 1 / 2),
      stopInTask = (\<lambda>ti wi k. False), stopAfterWallet = (\<lambda>ti wi. False),
      stopAfterTestnet = (\<lambda>ti. False)\<rparr>"

definition sampleExecutor :: "wallet list \<Rightarrow> testnetExecutor" where
  "sampleExecutor ws =
     \<lparr>isRunning = False, stats = zeroStats, manager = \<lparr>wallets = ws, db = Some []\<rparr>\<rparr>"

definition sampleTestnets :: "testnet list" where
  "sampleTestnets = [\<lparr>name = ''Sepolia'', tasks = Some [''faucet'', ''swap'']\<rparr>,
                     \<lparr>name = ''Holesky'', tasks = None\<rparr>]"

section \<open>Properties of the wallet manager\<close>

lemma generateBatchLoop_supported:
  assumes "chain = ''evm'' \<or> chain = ''solana''"
  shows "\<exists>new. generateBatchLoop ent chain s js ws = Inr (ws @ new) \<and> map index new = map (\<lambda>i. s + i) js"
proof (induction js arbitrary: ws)
  case Nil
  then show ?case by simp
next
  case (Cons j js)
  obtain w where w: "generateSingleWallet ent chain (s + j) = Inr w" "index w = s + j"
    using assms by (auto simp: generateSingleWallet_def generateEVMWallet_def generateSolanaWallet_def)
  from Cons.IH [of "ws @ [w]"] obtain new where
    "generateBatchLoop ent chain s js (ws @ [w]) = Inr ((ws @ [w]) @ new)" "map index new = map (\<lambda>i. s + i) js"
    by blast
  then have "generateBatchLoop ent chain s (j # js) ws = Inr (ws @ (w # new)) \<and> map index (w # new) = map (\<lambda>i. s + i) (j # js)"
    using w by simp
  then show ?case by blast
qed

lemma generateBatch_supported:
  assumes "chain = ''evm'' \<or> chain = ''solana''"
  shows "\<exists>new. generateBatch ent n chain s = Inr new \<and> map index new = [s..<s + n]"
proof -
  from generateBatchLoop_supported [OF assms, of ent s "[0..<n]" "[]"]
  obtain new where "generateBatchLoop ent chain s [0..<n] [] = Inr new" "map index new = map (\<lambda>i. s + i) [0..<n]"
    by auto
  moreover have "map (\<lambda>i. s + i) [0..<n] = [s..<s + n]"
    by (induction n) simp_all
  ultimately show ?thesis by (simp add: generateBatch_def)
qed


lemma generateLoop_supported:
  assumes "chain = ''evm'' \<or> chain = ''solana''"
  shows "\<exists>new. generateLoop ent chain count i ws = Inr (ws @ new) \<and> map index new = [i..<count]"
  using assms
proof (induction ent chain count i ws rule: generateLoop.induct)
  case (1 ent chain count i ws)
  note ok = "1.prems"
  show ?case
  proof (cases "i < count")
    case False
    then show ?thesis by simp
  next
    case True
    let ?b = "min batchSize (count - i)"
    from generateBatch_supported [OF ok, of ent ?b i]
    obtain bw where bw: "generateBatch ent ?b chain i = Inr bw" "map index bw = [i..<i + ?b]" by blast
    from "1.IH" [OF True bw(1) ok] obtain new where
      new: "generateLoop ent chain count (i + batchSize) (ws @ bw) = Inr ((ws @ bw) @ new)"
           "map index new = [i + batchSize..<count]" by blast
    have "[i..<i + ?b] @ [i + batchSize..<count] = [i..<count]"
    proof (cases "batchSize \<le> count - i")
      case True
      then have "?b = batchSize" by simp
      moreover have "[i..<i + batchSize] @ [i + batchSize..<count] = [i..<count]"
        using True \<open>i < count\<close> upt_add_eq_append [of i "i + batchSize" "count - (i + batchSize)"] by simp
      ultimately show ?thesis by simp
    next
      case False
      then have "?b = count - i" "count \<le> i + batchSize" by simp_all
      then show ?thesis using \<open>i < count\<close> by simp
    qed
    then have "map index (bw @ new) = [i..<count]" using bw(2) new(2) by simp
    moreover have "generateLoop ent chain count i ws = Inr (ws @ (bw @ new))"
      using True bw(1) new(1) by simp
    ultimately show ?thesis by blast
  qed
qed




lemma addLoop_eq:
  "addLoop aes ws placed =
     (if list_all (\<lambda>w. \<not> suspends aes w) ws then None else Some TransactionInactiveError,
      placed @ map (encryptedWallet aes) (takeWhile (\<lambda>w. \<not> suspends aes w) ws))"
  by (induction ws arbitrary: placed) simp_all

lemma encryptedWallet_unsuspended: "\<not> suspends aes w \<Longrightarrow> encryptedWallet aes w = w"
  by (auto simp: suspends_def encryptedWallet_def encrypt_def split: if_splits aesOutcome.splits)

lemma saveWallets_wallets: "wallets (snd (saveWallets aes wm)) = wallets wm"
  by (simp add: saveWallets_def split: option.splits prod.splits)


lemma saveWallets_stored:
  assumes "db wm = Some old"
  shows "db (snd (saveWallets aes wm))
           = Some (commit old (map (encryptedWallet aes)
                                 (takeWhile (\<lambda>w. \<not> suspends aes w) (wallets wm))))"
  using assms by (simp add: saveWallets_def addLoop_eq)


text \<open>With an open database the store holds, after a save, what it held before or
  records of wallets whose encryption fell back at once: these are the wallets
  themselves.\<close>

lemma saveWallets_stores_unsuspended:
  assumes "db wm = Some old" "db (snd (saveWallets aes wm)) = Some stored" "r \<in> set stored"
  shows "r \<in> set old \<or> (r \<in> set (wallets wm) \<and> \<not> suspends aes r)"
proof -
  let ?ws = "takeWhile (\<lambda>w. \<not> suspends aes w) (wallets wm)"
  have "\<forall>w \<in> set ?ws. \<not> suspends aes w" by (auto dest: set_takeWhileD)
  then have same: "map (encryptedWallet aes) ?ws = ?ws"
    by (simp add: map_idI encryptedWallet_unsuspended)
  from saveWallets_stored [OF assms(1), of aes] assms(2) same
  have stored: "stored = commit old ?ws" by simp
  show ?thesis
  proof (cases "r \<in> set old")
    case True
    then show ?thesis by simp
  next
    case False
    with assms(3) stored have "r \<in> set ?ws"
      by (auto simp: commit_def split: if_splits)
    then show ?thesis by (auto dest: set_takeWhileD)
  qed
qed

lemma generateWallets_supported:
  assumes "1 \<le> count" "count \<le> 20000" "chain = ''evm'' \<or> chain = ''solana''"
  shows "\<exists>new. map index new = [0..<nat count] \<and>
          wallets (snd (generateWallets ent aes count chain wm)) = wallets wm @ new \<and>
          generateWallets ent aes count chain wm =
            (case saveWallets aes (wm\<lparr>wallets := wallets wm @ new\<rparr>) of
               (None, wm') \<Rightarrow> (Inr new, wm')
             | (Some e, wm') \<Rightarrow> (Inl e, wm'))"
proof -
  from generateLoop_supported [OF assms(3), of ent "nat count" 0 "[]"]
  obtain new where new: "generateLoop ent chain (nat count) 0 [] = Inr new" "map index new = [0..<nat count]"
    by auto
  let ?wm = "wm\<lparr>wallets := wallets wm @ new\<rparr>"
  have eq: "generateWallets ent aes count chain wm =
            (case saveWallets aes ?wm of
               (None, wm') \<Rightarrow> (Inr new, wm')
             | (Some e, wm') \<Rightarrow> (Inl e, wm'))"
    using assms(1,2) new(1) by (simp add: generateWallets_def)
  have "snd (generateWallets ent aes count chain wm) = snd (saveWallets aes ?wm)"
    unfolding eq by (simp split: prod.splits option.splits)
  then have "wallets (snd (generateWallets ent aes count chain wm)) = wallets wm @ new"
    using saveWallets_wallets [of aes ?wm] by simp
  with new(2) eq show ?thesis by blast
qed

text \<open>
  Claim C2. Each generation run should assign a contiguous range of index values that
  starts one past the largest index already in the store, so that no index is used twice.
  The code starts every run at index 0: two runs of one wallet each, on a store that
  begins empty, leave two wallets that both carry index 0, whatever the random material
  and the cipher.
\<close>
theorem generateWallets_reuses_index:
  "map index (wallets (snd (generateWallets ent aes 1 ''evm''
      (snd (generateWallets ent aes 1 ''evm'' \<lparr>wallets = [], db = Some []\<rparr>))))) = [0, 0]"
proof -
  let ?wm0 = "\<lparr>wallets = [], db = Some []\<rparr>"
  let ?wm1 = "snd (generateWallets ent aes 1 ''evm'' ?wm0)"
  have a: "(1::int) \<le> 1" "(1::int) \<le> 20000" "''evm'' = ''evm'' \<or> ''evm'' = ''solana''"
    by simp_all
  from generateWallets_supported [OF a, of ent aes ?wm0]
  obtain new1 where n1: "map index new1 = [0..<nat 1]" "wallets ?wm1 = wallets ?wm0 @ new1"
    by blast
  from generateWallets_supported [OF a, of ent aes ?wm1]
  obtain new2 where n2: "map index new2 = [0..<nat 1]"
    "wallets (snd (generateWallets ent aes 1 ''evm'' ?wm1)) = wallets ?wm1 @ new2"
    by blast
  have "map index (wallets (snd (generateWallets ent aes 1 ''evm'' ?wm1)))
          = map index new1 @ map index new2"
    unfolding n2(2) n1(2) by simp
  then show ?thesis unfolding n1(1) n2(1) by simp
qed

text \<open>
  Claim C3, as stated, fails: when the encryption raises (here for every input),
  \<^verbatim>\<open>encrypt\<close> returns its input and the bulk save writes the private key as it is.
\<close>
theorem saveWallets_plaintext_counterexample:
  "map privateKey (the (db (snd (saveWallets (\<lambda>data. RaisedAtOnce)
      \<lparr>wallets = [\<lparr>index = 0, chainType = ''evm'', address = ''0x00'', privateKey = ''c0ffee'',
                    mnemonic = ''abandon ability'', timestamp = 0, balance = 0, completed = []\<rparr>],
       db = Some []\<rparr>)))) = [''c0ffee'']"
  by (simp add: saveWallets_def encryptedWallet_def suspends_def encrypt_def commit_def)

text \<open>
  Claim C3, amended. With an open database, every record that the store holds after the
  bulk save and did not hold before is the record of a wallet in which \<^verbatim>\<open>privateKey\<close>
  and \<^verbatim>\<open>mnemonic\<close> were replaced by what \<^verbatim>\<open>encrypt\<close> returned for them; for a field
  that is empty, or whose encryption raises, that is the field unchanged.
\<close>
theorem saveWallets_writes_encrypt_results:
  assumes "db wm = Some old"
  shows "\<exists>stored. db (snd (saveWallets aes wm)) = Some stored \<and>
           (\<forall>r \<in> set stored. r \<in> set old \<or>
              (\<exists>w \<in> set (wallets wm).
                 r = w\<lparr>privateKey := fst (encrypt aes (privateKey w)),
                       mnemonic := fst (encrypt aes (mnemonic w))\<rparr> \<and>
                 (privateKey w = [] \<or> aes (privateKey w) = RaisedAtOnce
                    \<or> aes (privateKey w) = RejectedLater \<longrightarrow> privateKey r = privateKey w) \<and>
                 (mnemonic w = [] \<or> aes (mnemonic w) = RaisedAtOnce
                    \<or> aes (mnemonic w) = RejectedLater \<longrightarrow> mnemonic r = mnemonic w)))"
proof -
  let ?placed = "map (encryptedWallet aes) (takeWhile (\<lambda>w. \<not> suspends aes w) (wallets wm))"
  let ?stored = "commit old ?placed"
  note k = saveWallets_stored [OF assms, of aes]
  have "r \<in> set old \<or>
              (\<exists>w \<in> set (wallets wm).
                 r = w\<lparr>privateKey := fst (encrypt aes (privateKey w)),
                       mnemonic := fst (encrypt aes (mnemonic w))\<rparr> \<and>
                 (privateKey w = [] \<or> aes (privateKey w) = RaisedAtOnce
                    \<or> aes (privateKey w) = RejectedLater \<longrightarrow> privateKey r = privateKey w) \<and>
                 (mnemonic w = [] \<or> aes (mnemonic w) = RaisedAtOnce
                    \<or> aes (mnemonic w) = RejectedLater \<longrightarrow> mnemonic r = mnemonic w))"
    if r: "r \<in> set ?stored" for r
  proof (cases "r \<in> set old")
    case True
    then show ?thesis by simp
  next
    case False
    with r have "r \<in> set ?placed"
      by (auto simp: commit_def split: if_splits)
    then obtain w where w: "w \<in> set (wallets wm)" "r = encryptedWallet aes w"
      by (auto dest: set_takeWhileD)
    have "fst (encrypt aes x) = x" if "x = [] \<or> aes x = RaisedAtOnce \<or> aes x = RejectedLater" for x
      using that by (auto simp: encrypt_def)
    with w show ?thesis by (auto simp: encryptedWallet_def)
  qed
  with k show ?thesis by blast
qed

theorem saveWallets_writes_encrypt_results_witness:
  "db (snd (saveWallets (\<lambda>data. if data = ''c0ffee'' then RaisedAtOnce else Encrypted ''Y2lwaGVy'')
      \<lparr>wallets = [\<lparr>index = 3, chainType = ''evm'', address = ''0x00'', privateKey = ''c0ffee'',
                    mnemonic = [], timestamp = 0, balance = 0, completed = []\<rparr>],
       db = Some []\<rparr>))
   = Some [\<lparr>index = 3, chainType = ''evm'', address = ''0x00'', privateKey = ''c0ffee'',
                    mnemonic = [], timestamp = 0, balance = 0, completed = []\<rparr>]"
  using saveWallets_writes_encrypt_results [of
      "\<lparr>wallets = [\<lparr>index = 3, chainType = ''evm'', address = ''0x00'', privateKey = ''c0ffee'',
                    mnemonic = [], timestamp = 0, balance = 0, completed = []\<rparr>],
       db = Some []\<rparr>" "[]" "\<lambda>data. if data = ''c0ffee'' then RaisedAtOnce else Encrypted ''Y2lwaGVy''"]
  by (simp add: saveWallets_def encryptedWallet_def suspends_def encrypt_def commit_def)






text \<open>
  When the encryption of the first wallet's key really runs, control goes back to the
  event loop inside the transaction: the save raises after the \<^verbatim>\<open>clear\<close> was carried
  out, and a generation run ends with the error raised and the new wallets kept.
\<close>
lemma saveWallets_working_cipher:
  assumes "db wm = Some old" "wallets wm = w # ws" "privateKey w \<noteq> []"
    "aes (privateKey w) = Encrypted c"
  shows "saveWallets aes wm = (Some TransactionInactiveError, wm\<lparr>db := Some []\<rparr>)"
  using assms by (simp add: saveWallets_def suspends_def encrypt_def commit_def)

lemma generateWallets_raises_after_push:
  "fst (generateWallets \<lparr>randomHex = (\<lambda>i. ''c0ffee''), randomMnemonic = (\<lambda>i. ''abandon ability''), now = (\<lambda>i. 0)\<rparr>
        (\<lambda>data. Encrypted ''Y2lwaGVy'') 1 ''evm'' \<lparr>wallets = [], db = Some []\<rparr>) = Inl TransactionInactiveError \<and>
   length (wallets (snd (generateWallets \<lparr>randomHex = (\<lambda>i. ''c0ffee''), randomMnemonic = (\<lambda>i. ''abandon ability''), now = (\<lambda>i. 0)\<rparr>
        (\<lambda>data. Encrypted ''Y2lwaGVy'') 1 ''evm'' \<lparr>wallets = [], db = Some []\<rparr>))) = 1 \<and>
   db (snd (generateWallets \<lparr>randomHex = (\<lambda>i. ''c0ffee''), randomMnemonic = (\<lambda>i. ''abandon ability''), now = (\<lambda>i. 0)\<rparr>
        (\<lambda>data. Encrypted ''Y2lwaGVy'') 1 ''evm'' \<lparr>wallets = [], db = Some []\<rparr>)) = Some []"
  by (simp add: generateWallets_def generateBatch_def batchSize_def generateSingleWallet_def
      generateEVMWallet_def saveWallets_def suspends_def encrypt_def commit_def)

section \<open>Properties of the persistent store\<close>

lemma keyOf_placeable: "keyOf st x \<noteq> None \<Longrightarrow> placeable st x"
  by (auto simp: keyOf_def placeable_def split: option.splits jsValue.splits)

lemma keyOf_keyPath: "keyPath st' = keyPath st \<Longrightarrow> keyOf st' x = keyOf st x"
  by (simp add: keyOf_def)

lemma addRecord_keyed:
  assumes "keyOf st x = Some k" "records st k = None"
  shows "\<exists>st'. addRecord st x = Some st' \<and> keyPath st' = keyPath st \<and>
               autoIncrement st' = autoIncrement st \<and> records st' = (records st)(k \<mapsto> x)"
  using assms by (simp add: addRecord_def)

lemma runAdds_keyed:
  assumes "\<forall>x \<in> set xs. keyOf st x \<noteq> None"
    and "distinct (map (keyOf st) xs)"
    and "\<forall>x \<in> set xs. \<forall>k. keyOf st x = Some k \<longrightarrow> records st k = None"
  shows "\<exists>st'. runAdds st xs = Some st' \<and> keyPath st' = keyPath st \<and>
               autoIncrement st' = autoIncrement st \<and>
               (\<forall>k y. records st' k = Some y \<longleftrightarrow>
                        records st k = Some y \<or> (y \<in> set xs \<and> keyOf st y = Some k))"
  using assms
proof (induction xs arbitrary: st)
  case Nil
  then show ?case by simp
next
  case (Cons x xs)
  from Cons.prems(1) obtain k where k: "keyOf st x = Some k" by auto
  with Cons.prems(3) have free: "records st k = None" by simp
  from addRecord_keyed [OF k free] obtain st1 where st1: "addRecord st x = Some st1"
    "keyPath st1 = keyPath st" "autoIncrement st1 = autoIncrement st"
    "records st1 = (records st)(k \<mapsto> x)" by blast
  have same: "keyOf st1 y = keyOf st y" for y using st1(2) by (rule keyOf_keyPath)
  have p1: "\<forall>y \<in> set xs. keyOf st1 y \<noteq> None" using Cons.prems(1) same by simp
  have p2: "distinct (map (keyOf st1) xs)" using Cons.prems(2) same by (simp cong: map_cong)
  have notk: "keyOf st y \<noteq> Some k" if "y \<in> set xs" for y
    using that Cons.prems(2) k by (auto simp: image_iff)
  have p3: "\<forall>y \<in> set xs. \<forall>k'. keyOf st1 y = Some k' \<longrightarrow> records st1 k' = None"
    using Cons.prems(3) notk same st1(4) by auto
  from Cons.IH [OF p1 p2 p3] obtain st' where st': "runAdds st1 xs = Some st'"
    "keyPath st' = keyPath st1" "autoIncrement st' = autoIncrement st1"
    "\<forall>k' y. records st' k' = Some y \<longleftrightarrow>
               records st1 k' = Some y \<or> (y \<in> set xs \<and> keyOf st1 y = Some k')" by blast
  have "records st' k' = Some y \<longleftrightarrow>
          records st k' = Some y \<or> (y \<in> set (x # xs) \<and> keyOf st y = Some k')" for k' y
  proof (cases "k' = k")
    case True
    with st'(4) st1(4) same free k notk show ?thesis by auto
  next
    case False
    with st'(4) st1(4) same k show ?thesis by auto
  qed
  with st1 st' show ?case by simp
qed

lemma commitStore_keyed:
  assumes "\<forall>x \<in> set xs. keyOf old x \<noteq> None" "distinct (map (keyOf old) xs)"
  shows "\<forall>k y. records (commitStore old xs) k = Some y \<longleftrightarrow> y \<in> set xs \<and> keyOf old y = Some k"
proof -
  let ?st = "old\<lparr>records := Map.empty\<rparr>"
  have same: "keyOf ?st y = keyOf old y" for y by (simp add: keyOf_def)
  have p1: "\<forall>x \<in> set xs. keyOf ?st x \<noteq> None" using assms(1) same by simp
  have p2: "distinct (map (keyOf ?st) xs)" using assms(2) same by (simp cong: map_cong)
  have p3: "\<forall>x \<in> set xs. \<forall>k. keyOf ?st x = Some k \<longrightarrow> records ?st k = None" by simp
  from runAdds_keyed [OF p1 p2 p3] obtain st' where st': "runAdds ?st xs = Some st'"
    "\<forall>k y. records st' k = Some y \<longleftrightarrow> records ?st k = Some y \<or> (y \<in> set xs \<and> keyOf ?st y = Some k)"
    by blast
  then have "commitStore old xs = st'" by (simp add: commitStore_def)
  with st'(2) same show ?thesis by simp
qed

lemma importEntries_placeable:
  assumes "distinct (map fst entries)"
    and "\<forall>(n, items) \<in> set entries. items \<noteq> [] \<longrightarrow> (\<exists>st. d n = Some st \<and> list_all (placeable st) items)"
  shows "importEntries entries d =
           (None, \<lambda>n. case map_of entries n of
                         None \<Rightarrow> d n
                       | Some items \<Rightarrow> if items = [] then d n
                                       else Some (commitStore (the (d n)) items))"
  using assms
proof (induction entries arbitrary: d)
  case Nil
  then show ?case by simp
next
  case (Cons entry entries)
  obtain k v where entry: "entry = (k, v)" by (cases entry)
  from Cons.prems entry have k: "k \<notin> fst ` set entries" and dist: "distinct (map fst entries)" by auto
  then have nomap: "map_of entries k = None" by (simp add: map_of_eq_None_iff)
  let ?f = "\<lambda>d n. case map_of entries n of None \<Rightarrow> d n
                   | Some items \<Rightarrow> if items = [] then d n else Some (commitStore (the (d n)) items)"
  let ?g = "\<lambda>n. case map_of (entry # entries) n of None \<Rightarrow> d n
                   | Some items \<Rightarrow> if items = [] then d n else Some (commitStore (the (d n)) items)"
  show ?case
  proof (cases "v = []")
    case True
    from Cons.prems(2) have "\<forall>(n, items) \<in> set entries. items \<noteq> [] \<longrightarrow>
        (\<exists>st. d n = Some st \<and> list_all (placeable st) items)" by auto
    from Cons.IH [OF dist this] have "importEntries entries d = (None, ?f d)" .
    moreover have "importEntries (entry # entries) d = importEntries entries d"
      using True entry by simp
    moreover have "?f d = ?g"
      using True entry nomap by (auto simp: fun_eq_iff split: option.splits)
    ultimately show ?thesis by simp
  next
    case False
    with Cons.prems(2) entry obtain old where old: "d k = Some old" "list_all (placeable old) v" by auto
    let ?d1 = "d(k \<mapsto> commitStore old v)"
    have "\<forall>(n, items) \<in> set entries. items \<noteq> [] \<longrightarrow>
        (\<exists>st. ?d1 n = Some st \<and> list_all (placeable st) items)"
    proof (intro ballI)
      fix e assume e: "e \<in> set entries"
      obtain n items where ni: "e = (n, items)" by (cases e)
      with e k have "n \<noteq> k" by force
      with Cons.prems(2) e ni show "case e of (n, items) \<Rightarrow> items \<noteq> [] \<longrightarrow>
          (\<exists>st. ?d1 n = Some st \<and> list_all (placeable st) items)" by auto
    qed
    from Cons.IH [OF dist this] have "importEntries entries ?d1 = (None, ?f ?d1)" .
    moreover have "importEntries (entry # entries) d = importEntries entries ?d1"
      using False entry old by simp
    moreover have "?f ?d1 = ?g"
      using False entry nomap old by (auto simp: fun_eq_iff split: option.splits)
    ultimately show ?thesis by simp
  qed
qed

text \<open>
  Claim C4, amended. Let the store names of the document be distinct and let every
  non-empty list name an existing store, with a number or a string at the key path of
  the store in each of its entries and no key twice. Then \<^verbatim>\<open>importData\<close> raises
  nothing; a store with a non-empty list holds afterwards exactly the listed entries,
  each under its key; a store with an empty list keeps its prior entries, and a store the
  document does not name is unchanged.
\<close>
theorem importData_replaces_nonempty:
  assumes "data doc = Some entries"
    and "distinct (map fst entries)"
    and "\<forall>(storeName, items) \<in> set entries. items \<noteq> [] \<longrightarrow>
           (\<exists>st. d storeName = Some st \<and> (\<forall>x \<in> set items. keyOf st x \<noteq> None) \<and>
                 distinct (map (keyOf st) items))"
  shows "fst (importData (Some doc) d) = None \<and>
         (\<forall>(storeName, items) \<in> set entries.
            (items = [] \<longrightarrow> snd (importData (Some doc) d) storeName = d storeName) \<and>
            (items \<noteq> [] \<longrightarrow>
               (\<exists>st st'. d storeName = Some st \<and>
                         snd (importData (Some doc) d) storeName = Some st' \<and>
                         (\<forall>k x. records st' k = Some x \<longleftrightarrow> x \<in> set items \<and> keyOf st x = Some k)))) \<and>
         (\<forall>storeName. storeName \<notin> fst ` set entries
            \<longrightarrow> snd (importData (Some doc) d) storeName = d storeName)"
proof -
  have pl: "\<forall>(n, items) \<in> set entries. items \<noteq> [] \<longrightarrow>
              (\<exists>st. d n = Some st \<and> list_all (placeable st) items)"
    using assms(3) by (fastforce simp: list_all_iff intro: keyOf_placeable)
  have "importData (Some doc) d = importEntries entries d"
    using assms(1) by (simp add: importData_def)
  with importEntries_placeable [OF assms(2) pl] have eq: "importData (Some doc) d =
           (None, \<lambda>n. case map_of entries n of
                         None \<Rightarrow> d n
                       | Some items \<Rightarrow> if items = [] then d n
                                       else Some (commitStore (the (d n)) items))" by simp
  have m1: "map_of entries n = Some items" if "(n, items) \<in> set entries" for n items
    using that assms(2) by simp
  have m2: "map_of entries n = None" if "n \<notin> fst ` set entries" for n
    using that by (simp add: map_of_eq_None_iff)
  have part: "(items = [] \<longrightarrow> snd (importData (Some doc) d) n = d n) \<and>
            (items \<noteq> [] \<longrightarrow>
               (\<exists>st st'. d n = Some st \<and>
                         snd (importData (Some doc) d) n = Some st' \<and>
                         (\<forall>k x. records st' k = Some x \<longleftrightarrow> x \<in> set items \<and> keyOf st x = Some k)))"
    if mem: "(n, items) \<in> set entries" for n items
  proof (cases "items = []")
    case True
    with m1 [OF mem] show ?thesis unfolding eq by simp
  next
    case False
    with assms(3) mem obtain st where st: "d n = Some st" "\<forall>x \<in> set items. keyOf st x \<noteq> None"
      "distinct (map (keyOf st) items)" by fastforce
    from commitStore_keyed [OF st(2,3)] False st(1) m1 [OF mem] show ?thesis
      unfolding eq by simp
  qed
  from part m2 show ?thesis unfolding eq by auto
qed

text \<open>
  Claim C4, as stated, fails: a document that lists no entries for \<^verbatim>\<open>history\<close>
  leaves the prior entry of that store in place.
\<close>
theorem importData_empty_list_counterexample:
  "records (the (snd (importData
       (Some \<lparr>version = 1, exportedAt = 0, data = Some [(''history'', [])]\<rparr>)
       (openDB(''history'' \<mapsto> \<lparr>keyPath = ''id'', autoIncrement = True, generator = 2,
                               records = [NumberKey 1 \<mapsto> [''id'' \<mapsto> JNumber 1]]\<rparr>)))
     ''history'')) (NumberKey 1) = Some [''id'' \<mapsto> JNumber 1]"
  by (simp add: importData_def)

theorem importData_replaces_nonempty_witness:
  "records (the (snd (importData
       (Some \<lparr>version = 1, exportedAt = 0,
              data = Some [(''wallets'', [[''index'' \<mapsto> JNumber 1], [''index'' \<mapsto> JNumber 2]]),
                           (''history'', [])]\<rparr>)
       (openDB(''wallets'' \<mapsto> \<lparr>keyPath = ''index'', autoIncrement = False, generator = 1,
                               records = [NumberKey 9 \<mapsto> [''index'' \<mapsto> JNumber 9]]\<rparr>)))
     ''wallets'')) (NumberKey 9) = None \<and>
   records (the (snd (importData
       (Some \<lparr>version = 1, exportedAt = 0,
              data = Some [(''wallets'', [[''index'' \<mapsto> JNumber 1], [''index'' \<mapsto> JNumber 2]]),
                           (''history'', [])]\<rparr>)
       (openDB(''wallets'' \<mapsto> \<lparr>keyPath = ''index'', autoIncrement = False, generator = 1,
                               records = [NumberKey 9 \<mapsto> [''index'' \<mapsto> JNumber 9]]\<rparr>)))
     ''wallets'')) (NumberKey 2) = Some [''index'' \<mapsto> JNumber 2]"
proof -
  let ?items = "[[''index'' \<mapsto> JNumber 1], [''index'' \<mapsto> JNumber 2 :: jsValue]]"
  let ?entries = "[(''wallets'', ?items), (''history'', [])]"
  let ?doc = "\<lparr>version = 1, exportedAt = 0, data = Some ?entries\<rparr>"
  let ?old = "\<lparr>keyPath = ''index'', autoIncrement = False, generator = 1,
               records = [NumberKey 9 \<mapsto> [''index'' \<mapsto> JNumber 9]]\<rparr>"
  define d where "d = openDB(''wallets'' \<mapsto> ?old)"
  have dw: "d ''wallets'' = Some ?old" by (simp add: d_def)
  have h1: "data ?doc = Some ?entries" by simp
  have h2: "distinct (map fst ?entries)" by simp
  have k1: "keyOf ?old [''index'' \<mapsto> JNumber 1] = Some (NumberKey 1)"
    and k2: "keyOf ?old [''index'' \<mapsto> JNumber 2] = Some (NumberKey 2)"
    by (simp_all add: keyOf_def)
  have h3: "\<forall>(storeName, items) \<in> set ?entries. items \<noteq> [] \<longrightarrow>
           (\<exists>st. d storeName = Some st \<and> (\<forall>x \<in> set items. keyOf st x \<noteq> None) \<and>
                 distinct (map (keyOf st) items))"
    using k1 k2 dw by simp
  have mem: "(''wallets'', ?items) \<in> set ?entries" by simp
  note part = importData_replaces_nonempty [OF h1 h2 h3, THEN conjunct2, THEN conjunct1]
  from bspec [OF part mem] dw
  have "\<exists>st'. snd (importData (Some ?doc) d) ''wallets'' = Some st' \<and>
          (\<forall>k x. records st' k = Some x \<longleftrightarrow> x \<in> set ?items \<and> keyOf ?old x = Some k)"
    by simp
  then obtain st' where st': "snd (importData (Some ?doc) d) ''wallets'' = Some st'"
    "\<forall>k x. records st' k = Some x \<longleftrightarrow> x \<in> set ?items \<and> keyOf ?old x = Some k"
    by blast
  from st'(2) k2 have a: "records st' (NumberKey 2) = Some [''index'' \<mapsto> JNumber 2]" by simp
  have "records st' (NumberKey 9) \<noteq> Some x" for x
    using st'(2) k1 k2 by auto
  then have b: "records st' (NumberKey 9) = None" by (cases "records st' (NumberKey 9)") auto
  from a b st'(1) show ?thesis unfolding d_def by simp
qed

text \<open>
  Outside the hypotheses on the keys a list does not replace the store: two entries
  with one key abort the transaction, which restores the prior entries without an error
  reaching the caller, and an entry without a key makes \<^verbatim>\<open>store.add\<close> throw after
  the \<^verbatim>\<open>clear\<close>.
\<close>

lemma importData_duplicate_key_aborts:
  "fst (importData
       (Some \<lparr>version = 1, exportedAt = 0,
              data = Some [(''wallets'', [[''index'' \<mapsto> JNumber 1], [''index'' \<mapsto> JNumber 1]])]\<rparr>)
       (openDB(''wallets'' \<mapsto> \<lparr>keyPath = ''index'', autoIncrement = False, generator = 1,
                               records = [NumberKey 9 \<mapsto> [''index'' \<mapsto> JNumber 9]]\<rparr>))) = None \<and>
   records (the (snd (importData
       (Some \<lparr>version = 1, exportedAt = 0,
              data = Some [(''wallets'', [[''index'' \<mapsto> JNumber 1], [''index'' \<mapsto> JNumber 1]])]\<rparr>)
       (openDB(''wallets'' \<mapsto> \<lparr>keyPath = ''index'', autoIncrement = False, generator = 1,
                               records = [NumberKey 9 \<mapsto> [''index'' \<mapsto> JNumber 9]]\<rparr>)))
     ''wallets'')) = [NumberKey 9 \<mapsto> [''index'' \<mapsto> JNumber 9]]"
  by (simp add: importData_def placeable_def commitStore_def addRecord_def keyOf_def)

lemma importData_missing_key_raises:
  "fst (importData
       (Some \<lparr>version = 1, exportedAt = 0,
              data = Some [(''wallets'', [[''address'' \<mapsto> JString ''0x00'']])]\<rparr>)
       (openDB(''wallets'' \<mapsto> \<lparr>keyPath = ''index'', autoIncrement = False, generator = 1,
                               records = [NumberKey 9 \<mapsto> [''index'' \<mapsto> JNumber 9]]\<rparr>))) = Some DataError \<and>
   records (the (snd (importData
       (Some \<lparr>version = 1, exportedAt = 0,
              data = Some [(''wallets'', [[''address'' \<mapsto> JString ''0x00'']])]\<rparr>)
       (openDB(''wallets'' \<mapsto> \<lparr>keyPath = ''index'', autoIncrement = False, generator = 1,
                               records = [NumberKey 9 \<mapsto> [''index'' \<mapsto> JNumber 9]]\<rparr>)))
     ''wallets'')) = Map.empty"
  by (simp add: importData_def placeable_def commitStore_def)

section \<open>Properties of cascade funding\<close>




lemma simulateReverseFunding_length: "length (snd (simulateReverseFunding r i ws)) = length ws"
  by (simp add: simulateReverseFunding_def Let_def)

lemma simulateReverseFunding_failure_cause:
  "fst (simulateReverseFunding r i ws) = Inl e \<longleftrightarrow>
     (r < 5 / 100 \<and> e = NetworkCongestion) \<or>
     (\<not> r < 5 / 100 \<and> balance (ws ! i) \<le> gasReserve \<and> e = InsufficientBalance)"
  by (auto simp: simulateReverseFunding_def Let_def)

text \<open>
  Claim C10. A simulated transfer that fails, forward or reverse and for either cause,
  returns the wallets as they were; conversely the wallets differ only if the failure
  draw passed (and, in the reverse transfer, the balance exceeded the gas reserve).
\<close>
theorem failed_transfer_keeps_balances:
  "(isl (fst (simulateFunding r amount gasBuffer i ws))
      \<longrightarrow> snd (simulateFunding r amount gasBuffer i ws) = ws) \<and>
   (isl (fst (simulateReverseFunding r i ws))
      \<longrightarrow> snd (simulateReverseFunding r i ws) = ws) \<and>
   (snd (simulateFunding r amount gasBuffer i ws) \<noteq> ws \<longrightarrow> \<not> r < 1 / 10) \<and>
   (snd (simulateReverseFunding r i ws) \<noteq> ws
      \<longrightarrow> \<not> r < 5 / 100 \<and> gasReserve < balance (ws ! i))"
  by (auto simp: simulateFunding_def simulateReverseFunding_def Let_def)

theorem failed_transfer_keeps_balances_witness:
  "snd (simulateFunding 0 1 (1 / 1000) 0
      [\<lparr>index = 0, chainType = ''evm'', address = ''0x00'', privateKey = ''c0ffee'',
        mnemonic = ''abandon ability'', timestamp = 0, balance = 5, completed = []\<rparr>,
       \<lparr>index = 1, chainType = ''evm'', address = ''0x00'', privateKey = ''c0ffee'',
        mnemonic = ''abandon ability'', timestamp = 0, balance = 1 / 1000, completed = []\<rparr>])
   = [\<lparr>index = 0, chainType = ''evm'', address = ''0x00'', privateKey = ''c0ffee'',
        mnemonic = ''abandon ability'', timestamp = 0, balance = 5, completed = []\<rparr>,
       \<lparr>index = 1, chainType = ''evm'', address = ''0x00'', privateKey = ''c0ffee'',
        mnemonic = ''abandon ability'', timestamp = 0, balance = 1 / 1000, completed = []\<rparr>] \<and>
   snd (simulateReverseFunding (1 / 2) 1
      [\<lparr>index = 0, chainType = ''evm'', address = ''0x00'', privateKey = ''c0ffee'',
        mnemonic = ''abandon ability'', timestamp = 0, balance = 5, completed = []\<rparr>,
       \<lparr>index = 1, chainType = ''evm'', address = ''0x00'', privateKey = ''c0ffee'',
        mnemonic = ''abandon ability'', timestamp = 0, balance = 1 / 1000, completed = []\<rparr>])
   = [\<lparr>index = 0, chainType = ''evm'', address = ''0x00'', privateKey = ''c0ffee'',
        mnemonic = ''abandon ability'', timestamp = 0, balance = 5, completed = []\<rparr>,
       \<lparr>index = 1, chainType = ''evm'', address = ''0x00'', privateKey = ''c0ffee'',
        mnemonic = ''abandon ability'', timestamp = 0, balance = 1 / 1000, completed = []\<rparr>] \<and>
   gasReserve < balance ([\<lparr>index = 0, chainType = ''evm'', address = ''0x00'', privateKey = ''c0ffee'',
        mnemonic = ''abandon ability'', timestamp = 0, balance = 5, completed = []\<rparr>,
       \<lparr>index = 1, chainType = ''evm'', address = ''0x00'', privateKey = ''c0ffee'',
        mnemonic = ''abandon ability'', timestamp = 0, balance = 1 / 1000, completed = []\<rparr>] ! 0)"
proof -
  let ?W = "[\<lparr>index = 0, chainType = ''evm'', address = ''0x00'', privateKey = ''c0ffee'',
        mnemonic = ''abandon ability'', timestamp = 0, balance = 5, completed = []\<rparr>,
       \<lparr>index = 1, chainType = ''evm'', address = ''0x00'', privateKey = ''c0ffee'',
        mnemonic = ''abandon ability'', timestamp = 0, balance = 1 / 1000, completed = []\<rparr>]"
  have a: "isl (fst (simulateFunding 0 1 (1 / 1000) 0 ?W))" by code_simp
  have b: "isl (fst (simulateReverseFunding (1 / 2) 1 ?W))" by code_simp
  have c: "snd (simulateFunding (1 / 2) 1 (1 / 1000) 0 ?W) \<noteq> ?W" by code_simp
  have d: "snd (simulateReverseFunding (1 / 2) 0 ?W) \<noteq> ?W" by code_simp
  from failed_transfer_keeps_balances [of 0 1 "1 / 1000" 0 ?W] a
  have 1: "snd (simulateFunding 0 1 (1 / 1000) 0 ?W) = ?W" by blast
  from failed_transfer_keeps_balances [of "1 / 2" 1 "1 / 1000" 1 ?W] b
  have 2: "snd (simulateReverseFunding (1 / 2) 1 ?W) = ?W" by blast
  from failed_transfer_keeps_balances [of "1 / 2" 1 "1 / 1000" 0 ?W] c d
  have 3: "gasReserve < balance (?W ! 0)" by blast
  from 1 2 3 show ?thesis by blast
qed






lemma reverseLoop_Cons_lines:
  assumes "isRunningF s"
  shows "fst (reverseLoop env dest (j # js) s) =
      SendingFrom j (if j > 0 then address (fundWallets s ! (j - 1)) else dest)
        # (case fst (simulateReverseFunding (fundRandom env j) j (fundWallets s)) of
             Inl e \<Rightarrow> SendFailed j e | Inr sent \<Rightarrow> FundsSent j)
        # fst (reverseLoop env dest js
                (s\<lparr>fundWallets := snd (simulateReverseFunding (fundRandom env j) j (fundWallets s)),
                   isRunningF := \<not> stopRequested env j\<rparr>))"
  using assms by (simp add: Let_def case_prod_unfold)


lemma simulateReverseFunding_frame:
  "k \<noteq> j \<Longrightarrow> snd (simulateReverseFunding r j ws) ! k = ws ! k"
  by (simp add: simulateReverseFunding_def Let_def)

lemma simulateReverseFunding_local:
  "ws' ! k = ws ! k \<Longrightarrow>
     fst (simulateReverseFunding r k ws') = fst (simulateReverseFunding r k ws)"
  by (simp add: simulateReverseFunding_def Let_def)

text \<open>
  The log of the reverse loop when \<^verbatim>\<open>stop()\<close> is not called: two lines for every
  wallet of the list, the second of which tells whether its transfer failed. The
  transfer of wallet \<open>j\<close> writes only the balance of wallet \<open>j\<close>, so the outcome of
  each transfer and each target address can be read off the wallets as they are when
  the loop begins.
\<close>

lemma reverseLoop_log:
  assumes "isRunningF s" "sorted_wrt (>) js" "\<forall>j \<in> set js. \<not> stopRequested env j"
  shows "fst (reverseLoop env dest js s) =
           concat (map (\<lambda>j. [SendingFrom j (if j > 0 then address (fundWallets s ! (j - 1)) else dest),
                             (case fst (simulateReverseFunding (fundRandom env j) j (fundWallets s)) of
                                Inl e \<Rightarrow> SendFailed j e | Inr sent \<Rightarrow> FundsSent j)]) js)"
  using assms
proof (induction js arbitrary: s)
  case Nil
  then show ?case by simp
next
  case (Cons j js)
  let ?ws = "snd (simulateReverseFunding (fundRandom env j) j (fundWallets s))"
  let ?s1 = "s\<lparr>fundWallets := ?ws, isRunningF := \<not> stopRequested env j\<rparr>"
  from Cons.prems have p: "isRunningF ?s1" "sorted_wrt (>) js" "\<forall>j \<in> set js. \<not> stopRequested env j"
    by simp_all
  have below: "k < j" if "k \<in> set js" for k using that Cons.prems(2) by simp
  have same: "?ws ! k = fundWallets s ! k" if "k < j" for k
    using that by (simp add: simulateReverseFunding_frame)
  have "map (\<lambda>k. [SendingFrom k (if k > 0 then address (fundWallets ?s1 ! (k - 1)) else dest),
                   (case fst (simulateReverseFunding (fundRandom env k) k (fundWallets ?s1)) of
                      Inl e \<Rightarrow> SendFailed k e | Inr sent \<Rightarrow> FundsSent k)]) js =
        map (\<lambda>k. [SendingFrom k (if k > 0 then address (fundWallets s ! (k - 1)) else dest),
                   (case fst (simulateReverseFunding (fundRandom env k) k (fundWallets s)) of
                      Inl e \<Rightarrow> SendFailed k e | Inr sent \<Rightarrow> FundsSent k)]) js"
  proof (rule map_cong [OF refl])
    fix k assume k: "k \<in> set js"
    from below [OF k] have kj: "k < j" and k1: "k - 1 < j" by simp_all
    have a: "fundWallets ?s1 ! (k - 1) = fundWallets s ! (k - 1)" using same [OF k1] by simp
    have "fundWallets ?s1 ! k = fundWallets s ! k" using same [OF kj] by simp
    from simulateReverseFunding_local [OF this]
    have b: "fst (simulateReverseFunding (fundRandom env k) k (fundWallets ?s1)) =
             fst (simulateReverseFunding (fundRandom env k) k (fundWallets s))" .
    show "[SendingFrom k (if k > 0 then address (fundWallets ?s1 ! (k - 1)) else dest),
                   (case fst (simulateReverseFunding (fundRandom env k) k (fundWallets ?s1)) of
                      Inl e \<Rightarrow> SendFailed k e | Inr sent \<Rightarrow> FundsSent k)] =
          [SendingFrom k (if k > 0 then address (fundWallets s ! (k - 1)) else dest),
                   (case fst (simulateReverseFunding (fundRandom env k) k (fundWallets s)) of
                      Inl e \<Rightarrow> SendFailed k e | Inr sent \<Rightarrow> FundsSent k)]"
      unfolding a b ..
  qed
  then have rest: "fst (reverseLoop env dest js ?s1) =
        concat (map (\<lambda>k. [SendingFrom k (if k > 0 then address (fundWallets s ! (k - 1)) else dest),
                   (case fst (simulateReverseFunding (fundRandom env k) k (fundWallets s)) of
                      Inl e \<Rightarrow> SendFailed k e | Inr sent \<Rightarrow> FundsSent k)]) js)"
    using Cons.IH [OF p] by (simp only:)
  show ?case
    unfolding reverseLoop_Cons_lines [OF Cons.prems(1)] rest by simp
qed

lemma attempts_append: "attempts (xs @ ys) = attempts xs @ attempts ys"
  by (induction xs rule: attempts.induct) simp_all

lemma attempts_log:
  "attempts (concat (map (\<lambda>j. [SendingFrom j (a j),
                               (case r j of Inl e \<Rightarrow> SendFailed j e | Inr sent \<Rightarrow> FundsSent j)]) js)) = js"
  by (induction js) (simp_all split: sum.splits)

lemma upt_split: "i < n \<Longrightarrow> [0..<n] = [0..<i] @ i # [Suc i..<n]"
  by (induction n) (auto simp: less_Suc_eq)

lemma rev_upt_split: "i < n \<Longrightarrow> rev [0..<n] = rev [Suc i..<n] @ i # rev [0..<i]"
  using upt_split [of i n] by simp

text \<open>
  Claim C6, as stated, fails: when \<^verbatim>\<open>stop()\<close> is called while the failing transfer
  of the last wallet is under way, the failure is logged and the loop ends at its next
  check of \<^verbatim>\<open>isRunning\<close>; the two remaining wallets are never attempted.
\<close>
theorem fundReverse_stop_counterexample:
  "fundReverse \<lparr>fundRandom = (\<lambda>i. if i = 2 then 1 / 100 else 1 / 2),
                stopRequested = (\<lambda>i. i = 2)\<rparr> ''0xdest''
     \<lparr>isRunningF = False, fundWallets = [sampleWallet 0 3 [], sampleWallet 1 3 [], sampleWallet 2 3 []]\<rparr>
   = (ReverseDone,
      [ReverseStarting, SendingFrom 2 ''0x0000000000000000000000000000000000000000'',
       SendFailed 2 NetworkCongestion, ReverseCompleted],
      \<lparr>isRunningF = False, fundWallets = [sampleWallet 0 3 [], sampleWallet 1 3 [], sampleWallet 2 3 []]\<rparr>)"
  by code_simp

text \<open>
  Claim C6, amended. When \<^verbatim>\<open>stop()\<close> is not called during a run of \<^verbatim>\<open>fundReverse\<close>, a
  transfer that fails at wallet \<open>i\<close>, by the failure draw or because the balance of
  the wallet does not exceed the gas reserve, is logged with its error, a transfer is
  started for every wallet from the last to the first, those after the logged failure
  being exactly the wallets below \<open>i\<close> in descending order, and the run ends with the
  completion toast.
\<close>
theorem fundReverse_failure_continues:
  assumes "\<not> isRunningF s" and "destinationAddress \<noteq> []"
    and "\<forall>j < length (fundWallets s). \<not> stopRequested env j"
    and "i < length (fundWallets s)"
    and "(fundRandom env i < 5 / 100 \<and> e = NetworkCongestion) \<or>
         (\<not> fundRandom env i < 5 / 100 \<and> balance (fundWallets s ! i) \<le> gasReserve \<and>
          e = InsufficientBalance)"
  shows "fst (fundReverse env destinationAddress s) = ReverseDone \<and>
         attempts (fst (snd (fundReverse env destinationAddress s))) = rev [0..<length (fundWallets s)] \<and>
         (\<exists>before after. fst (snd (fundReverse env destinationAddress s)) = before @ SendFailed i e # after \<and>
                          attempts after = rev [0..<i])"
proof -
  let ?n = "length (fundWallets s)"
  let ?f = "\<lambda>j. [SendingFrom j (if j > 0 then address (fundWallets s ! (j - 1)) else destinationAddress),
                  (case fst (simulateReverseFunding (fundRandom env j) j (fundWallets s)) of
                     Inl e \<Rightarrow> SendFailed j e | Inr sent \<Rightarrow> FundsSent j)]"
  let ?s0 = "s\<lparr>isRunningF := True\<rparr>"
  from assms(4) have ne: "\<not> ?n < 1" by auto
  have "fst (reverseLoop env destinationAddress (rev [0..<?n]) ?s0) =
          concat (map (\<lambda>j. [SendingFrom j (if j > 0 then address (fundWallets ?s0 ! (j - 1)) else destinationAddress),
                  (case fst (simulateReverseFunding (fundRandom env j) j (fundWallets ?s0)) of
                     Inl e \<Rightarrow> SendFailed j e | Inr sent \<Rightarrow> FundsSent j)]) (rev [0..<?n]))"
    by (rule reverseLoop_log) (use assms(3) in \<open>simp_all add: sorted_wrt_rev\<close>)
  then have loop: "fst (reverseLoop env destinationAddress (rev [0..<?n]) ?s0) = concat (map ?f (rev [0..<?n]))"
    by (simp cong: if_cong)
  have res: "fst (fundReverse env destinationAddress s) = ReverseDone"
    and lines: "fst (snd (fundReverse env destinationAddress s)) =
           [ReverseStarting] @ concat (map ?f (rev [0..<?n])) @ [ReverseCompleted]"
    using assms(1,2) ne loop by (simp_all add: fundReverse_def case_prod_unfold)
  from assms(5) have "fst (simulateReverseFunding (fundRandom env i) i (fundWallets s)) = Inl e"
    by (simp add: simulateReverseFunding_failure_cause)
  then have fi: "?f i = [SendingFrom i (if i > 0 then address (fundWallets s ! (i - 1)) else destinationAddress),
                         SendFailed i e]" by simp
  let ?before = "[ReverseStarting] @ concat (map ?f (rev [Suc i..<?n])) @
                  [SendingFrom i (if i > 0 then address (fundWallets s ! (i - 1)) else destinationAddress)]"
  let ?after = "concat (map ?f (rev [0..<i])) @ [ReverseCompleted]"
  have split: "fst (snd (fundReverse env destinationAddress s)) = ?before @ SendFailed i e # ?after"
    unfolding lines rev_upt_split [OF assms(4)] using fi by simp
  have att: "attempts ?after = rev [0..<i]"
    unfolding attempts_append attempts_log by simp
  have all: "attempts (fst (snd (fundReverse env destinationAddress s))) = rev [0..<?n]"
    unfolding lines attempts_append attempts_log by simp
  from res all split att show ?thesis by blast
qed

theorem fundReverse_failure_continues_witness:
  "fst (snd (fundReverse \<lparr>fundRandom = (\<lambda>i. if i = 2 then 1 / 100 else 1 / 2), stopRequested = (\<lambda>i. False)\<rparr>
       ''0xdest''
       \<lparr>isRunningF = False,
        fundWallets = [sampleWallet 0 3 [], sampleWallet 1 (1 / 1000) [], sampleWallet 2 3 [],
                       sampleWallet 3 3 [], sampleWallet 4 3 []]\<rparr>))
   = [ReverseStarting,
      SendingFrom 4 ''0x0000000000000000000000000000000000000000'', FundsSent 4,
      SendingFrom 3 ''0x0000000000000000000000000000000000000000'', FundsSent 3,
      SendingFrom 2 ''0x0000000000000000000000000000000000000000'', SendFailed 2 NetworkCongestion,
      SendingFrom 1 ''0x0000000000000000000000000000000000000000'', SendFailed 1 InsufficientBalance,
      SendingFrom 0 ''0xdest'', FundsSent 0, ReverseCompleted] \<and>
   attempts (fst (snd (fundReverse
       \<lparr>fundRandom = (\<lambda>i. if i = 2 then 1 / 100 else 1 / 2), stopRequested = (\<lambda>i. False)\<rparr>
       ''0xdest''
       \<lparr>isRunningF = False,
        fundWallets = [sampleWallet 0 3 [], sampleWallet 1 (1 / 1000) [], sampleWallet 2 3 [],
                       sampleWallet 3 3 [], sampleWallet 4 3 []]\<rparr>))) = [4, 3, 2, 1, 0]"
proof -
  let ?env = "\<lparr>fundRandom = (\<lambda>i. if i = 2 then 1 / 100 else 1 / 2 :: rat), stopRequested = (\<lambda>i :: nat. False)\<rparr>"
  let ?s = "\<lparr>isRunningF = False,
        fundWallets = [sampleWallet 0 3 [], sampleWallet 1 (1 / 1000) [], sampleWallet 2 3 [],
                       sampleWallet 3 3 [], sampleWallet 4 3 []]\<rparr>"
  have h1: "\<not> isRunningF ?s" by simp
  have h2: "''0xdest'' \<noteq> []" by simp
  have h3: "\<forall>j < length (fundWallets ?s). \<not> stopRequested ?env j" by simp
  have h4: "1 < length (fundWallets ?s)" by simp
  have h5: "(fundRandom ?env 1 < 5 / 100 \<and> InsufficientBalance = NetworkCongestion) \<or>
         (\<not> fundRandom ?env 1 < 5 / 100 \<and> balance (fundWallets ?s ! 1) \<le> gasReserve \<and>
          InsufficientBalance = InsufficientBalance)"
    by (simp add: sampleWallet_def gasReserve_def)
  have lines: "fst (snd (fundReverse ?env ''0xdest'' ?s))
   = [ReverseStarting,
      SendingFrom 4 ''0x0000000000000000000000000000000000000000'', FundsSent 4,
      SendingFrom 3 ''0x0000000000000000000000000000000000000000'', FundsSent 3,
      SendingFrom 2 ''0x0000000000000000000000000000000000000000'', SendFailed 2 NetworkCongestion,
      SendingFrom 1 ''0x0000000000000000000000000000000000000000'', SendFailed 1 InsufficientBalance,
      SendingFrom 0 ''0xdest'', FundsSent 0, ReverseCompleted]"
    by code_simp
  from fundReverse_failure_continues [OF h1 h2 h3 h4 h5]
  have "attempts (fst (snd (fundReverse ?env ''0xdest'' ?s))) = rev [0..<length (fundWallets ?s)]"
    by (rule conjunct2 [THEN conjunct1])
  then have "attempts (fst (snd (fundReverse ?env ''0xdest'' ?s))) = [4, 3, 2, 1, 0]"
    by (simp add: upt_rec)
  with lines show ?thesis by simp
qed

section \<open>Properties of task execution\<close>

lemma markTestnetCompleted_length:
  "length (wallets (snd (markTestnetCompleted aes i n wm))) = length (wallets wm)"
  by (simp add: markTestnetCompleted_def saveWallets_wallets split: option.splits)

lemma markTestnetCompleted_length':
  "markTestnetCompleted aes i n wm = (r, m) \<Longrightarrow> length (wallets m) = length (wallets wm)"
  using markTestnetCompleted_length [of aes i n wm] by simp

lemma skips_Nil: "skips [] = 0"
  by (simp add: skips_def)

lemma skips_Cons: "skips ((ev, st) # tr) = (if isSkipped ev then Suc (skips tr) else skips tr)"
  by (simp add: skips_def)

lemma skips_append: "skips (xs @ ys) = skips xs + skips ys"
  by (simp add: skips_def)

lemma countersAgree_append:
  "countersAgree sk (xs @ ys) = (countersAgree sk xs \<and> countersAgree (sk + skips xs) ys)"
proof (induction xs arbitrary: sk)
  case Nil
  then show ?case by (simp add: skips_Nil)
next
  case (Cons x xs)
  obtain ev st where x: "x = (ev, st)" by (cases x)
  show ?case
    unfolding x using Cons.IH [of "Suc sk"] Cons.IH [of sk]
    by (simp add: skips_Cons skips_Nil)
qed

lemma walletStep_stats:
  assumes "walletStep env aes t ti p wi s = ((ev, sn), s1)"
  shows "sn = stats s1"
    and "totalTasks (stats s1) = totalTasks (stats s)"
    and "completedN (stats s1) = Suc (completedN (stats s))"
    and "successful (stats s1) + failed (stats s1) + (if isSkipped ev then 1 else 0)
           = Suc (successful (stats s) + failed (stats s))"
    and "length (wallets (manager s1)) = length (wallets (manager s))"
  using assms
  by (auto simp: walletStep_def Let_def dest: markTestnetCompleted_length'
           split: if_splits prod.splits option.splits)

lemma walletLoop_counters:
  assumes "walletLoop env aes t ti ps wi s = (tr, s')"
    and "completedN (stats s) = successful (stats s) + failed (stats s) + sk"
    and "completedN (stats s) + length ps + b \<le> totalTasks (stats s)"
  shows "countersAgree sk tr \<and>
         completedN (stats s') = successful (stats s') + failed (stats s') + (sk + skips tr) \<and>
         completedN (stats s') + b \<le> totalTasks (stats s') \<and>
         totalTasks (stats s') = totalTasks (stats s) \<and>
         length (wallets (manager s')) = length (wallets (manager s))"
  using assms
proof (induction ps arbitrary: wi s sk tr s')
  case Nil
  then show ?case by (simp add: skips_Nil)
next
  case (Cons p ps)
  show ?case
  proof (cases "isRunning s")
    case False
    with Cons.prems show ?thesis by (simp add: skips_Nil)
  next
    case True
    obtain ev sn s1 where step: "walletStep env aes t ti p wi s = ((ev, sn), s1)"
      by (cases "walletStep env aes t ti p wi s") auto
    obtain tr1 s1' where rec: "walletLoop env aes t ti ps (Suc wi) s1 = (tr1, s1')"
      by (cases "walletLoop env aes t ti ps (Suc wi) s1")
    from Cons.prems(1) True step rec have eq: "tr = (ev, sn) # tr1" "s' = s1'" by simp_all
    note st = walletStep_stats [OF step]
    let ?sk1 = "sk + (if isSkipped ev then 1 else 0)"
    have inv1: "completedN (stats s1) = successful (stats s1) + failed (stats s1) + ?sk1"
      using st(3,4) Cons.prems(2) by simp
    have inv2: "completedN (stats s1) + length ps + b \<le> totalTasks (stats s1)"
      using st(2,3) Cons.prems(3) by simp
    from Cons.IH [OF rec inv1 inv2] have ih:
      "countersAgree ?sk1 tr1"
      "completedN (stats s1') = successful (stats s1') + failed (stats s1') + (?sk1 + skips tr1)"
      "completedN (stats s1') + b \<le> totalTasks (stats s1')"
      "totalTasks (stats s1') = totalTasks (stats s1)"
      "length (wallets (manager s1')) = length (wallets (manager s1))"
      by simp_all
    have here: "completedN sn = successful sn + failed sn + ?sk1" "completedN sn \<le> totalTasks sn"
      using inv1 inv2 st(1) by simp_all
    have "countersAgree sk ((ev, sn) # tr1)"
      using here ih(1) by (auto simp: skips_Cons skips_Nil split: if_splits)
    moreover have "?sk1 + skips tr1 = sk + skips ((ev, sn) # tr1)"
      by (simp add: skips_Cons)
    ultimately show ?thesis
      using ih(2-5) st(2,5) unfolding eq by simp
  qed
qed

lemma walletLoop_total:
  assumes "walletLoop env aes t ti ps wi s = (tr, s')"
  shows "\<forall>e \<in> set tr. totalTasks (snd e) = totalTasks (stats s)"
  using assms
proof (induction ps arbitrary: wi s tr s')
  case Nil
  then show ?case by simp
next
  case (Cons p ps)
  show ?case
  proof (cases "isRunning s")
    case False
    with Cons.prems show ?thesis by simp
  next
    case True
    obtain ev sn s1 where step: "walletStep env aes t ti p wi s = ((ev, sn), s1)"
      by (cases "walletStep env aes t ti p wi s") auto
    obtain tr1 s1' where rec: "walletLoop env aes t ti ps (Suc wi) s1 = (tr1, s1')"
      by (cases "walletLoop env aes t ti ps (Suc wi) s1")
    from Cons.prems(1) True step rec have eq: "tr = (ev, sn) # tr1" by simp
    from walletStep_stats(1,2) [OF step] Cons.IH [OF rec] show ?thesis
      unfolding eq by simp
  qed
qed

lemma walletLoop_last:
  assumes "walletLoop env aes t ti ps wi s = (tr, s')"
  shows "stats s' = snd (last ((e, stats s) # tr))"
  using assms
proof (induction ps arbitrary: wi s tr s' e)
  case Nil
  then show ?case by simp
next
  case (Cons p ps)
  show ?case
  proof (cases "isRunning s")
    case False
    with Cons.prems show ?thesis by simp
  next
    case True
    obtain ev sn s1 where step: "walletStep env aes t ti p wi s = ((ev, sn), s1)"
      by (cases "walletStep env aes t ti p wi s") auto
    obtain tr1 s1' where rec: "walletLoop env aes t ti ps (Suc wi) s1 = (tr1, s1')"
      by (cases "walletLoop env aes t ti ps (Suc wi) s1")
    from Cons.prems(1) True step rec have eq: "tr = (ev, sn) # tr1" "s' = s1'" by simp_all
    from Cons.IH [where e = ev, OF rec] walletStep_stats(1) [OF step] show ?thesis
      unfolding eq by simp
  qed
qed

lemma shuffleLoop_length: "length (shuffleLoop r i xs) = length xs"
  by (induction i arbitrary: xs) (simp_all add: Let_def)

lemma shuffleArray_length: "length (shuffleArray r xs) = length xs"
  by (simp add: shuffleArray_def shuffleLoop_length)

lemma executeTestnet_walletLoop:
  "\<exists>ps. length ps = length (wallets (manager s)) \<and>
        executeTestnet env aes cfg t ti s = walletLoop env aes t ti ps 0 s"
proof -
  let ?ps = "if randomizeOrder cfg
             then shuffleArray (shuffleWalletsR env ti) [0..<length (wallets (manager s))]
             else [0..<length (wallets (manager s))]"
  have "length ?ps = length (wallets (manager s))"
    by (simp add: shuffleArray_length)
  moreover have "executeTestnet env aes cfg t ti s = walletLoop env aes t ti ?ps 0 s"
    by (simp add: executeTestnet_def Let_def)
  ultimately show ?thesis by blast
qed

lemma testnetLoop_counters:
  assumes "testnetLoop env aes cfg ts ti s = (tr, s')"
    and "completedN (stats s) = successful (stats s) + failed (stats s) + sk"
    and "completedN (stats s) + length ts * length (wallets (manager s)) \<le> totalTasks (stats s)"
  shows "countersAgree sk tr \<and>
         completedN (stats s') = successful (stats s') + failed (stats s') + (sk + skips tr) \<and>
         completedN (stats s') \<le> totalTasks (stats s') \<and>
         totalTasks (stats s') = totalTasks (stats s)"
  using assms
proof (induction ts arbitrary: ti s sk tr s')
  case Nil
  then show ?case by (simp add: skips_Nil)
next
  case (Cons t ts)
  show ?case
  proof (cases "isRunning s")
    case False
    with Cons.prems show ?thesis by (simp add: skips_Nil)
  next
    case True
    obtain ps where ps: "length ps = length (wallets (manager s))"
      "executeTestnet env aes cfg t ti s = walletLoop env aes t ti ps 0 s"
      using executeTestnet_walletLoop by blast
    obtain tr1 s1 where one: "walletLoop env aes t ti ps 0 s = (tr1, s1)"
      by (cases "walletLoop env aes t ti ps 0 s")
    let ?s2 = "s1\<lparr>isRunning := isRunning s1 \<and> \<not> stopAfterTestnet env ti\<rparr>"
    obtain tr2 s2' where rec: "testnetLoop env aes cfg ts (Suc ti) ?s2 = (tr2, s2')"
      by (cases "testnetLoop env aes cfg ts (Suc ti) ?s2")
    from Cons.prems(1) True one rec ps(2) have eq: "tr = tr1 @ tr2" "s' = s2'" by simp_all
    have budget: "completedN (stats s) + length ps + length ts * length (wallets (manager s))
                    \<le> totalTasks (stats s)"
      using Cons.prems(3) ps(1) by simp
    from walletLoop_counters [OF one Cons.prems(2) budget] have e1:
      "countersAgree sk tr1"
      "completedN (stats s1) = successful (stats s1) + failed (stats s1) + (sk + skips tr1)"
      "completedN (stats s1) + length ts * length (wallets (manager s)) \<le> totalTasks (stats s1)"
      "totalTasks (stats s1) = totalTasks (stats s)"
      "length (wallets (manager s1)) = length (wallets (manager s))"
      by simp_all
    have inv1: "completedN (stats ?s2) = successful (stats ?s2) + failed (stats ?s2) + (sk + skips tr1)"
      using e1(2) by simp
    have inv2: "completedN (stats ?s2) + length ts * length (wallets (manager ?s2)) \<le> totalTasks (stats ?s2)"
      using e1(3,5) by simp
    from Cons.IH [OF rec inv1 inv2] have ih:
      "countersAgree (sk + skips tr1) tr2"
      "completedN (stats s2') = successful (stats s2') + failed (stats s2') + (sk + skips tr1 + skips tr2)"
      "completedN (stats s2') \<le> totalTasks (stats s2')"
      "totalTasks (stats s2') = totalTasks (stats ?s2)"
      by simp_all
    show ?thesis
      unfolding eq using e1(1,4) ih by (simp add: countersAgree_append skips_append)
  qed
qed

lemma testnetLoop_total:
  assumes "testnetLoop env aes cfg ts ti s = (tr, s')"
  shows "(\<forall>e \<in> set tr. totalTasks (snd e) = totalTasks (stats s)) \<and>
         totalTasks (stats s') = totalTasks (stats s)"
  using assms
proof (induction ts arbitrary: ti s tr s')
  case Nil
  then show ?case by simp
next
  case (Cons t ts)
  show ?case
  proof (cases "isRunning s")
    case False
    with Cons.prems show ?thesis by simp
  next
    case True
    obtain ps where ps: "executeTestnet env aes cfg t ti s = walletLoop env aes t ti ps 0 s"
      using executeTestnet_walletLoop by blast
    obtain tr1 s1 where one: "walletLoop env aes t ti ps 0 s = (tr1, s1)"
      by (cases "walletLoop env aes t ti ps 0 s")
    let ?s2 = "s1\<lparr>isRunning := isRunning s1 \<and> \<not> stopAfterTestnet env ti\<rparr>"
    obtain tr2 s2' where rec: "testnetLoop env aes cfg ts (Suc ti) ?s2 = (tr2, s2')"
      by (cases "testnetLoop env aes cfg ts (Suc ti) ?s2")
    from Cons.prems(1) True one rec ps have eq: "tr = tr1 @ tr2" "s' = s2'" by simp_all
    have "stats s1 = snd (last ((RunReset, stats s) # tr1))"
      using walletLoop_last [OF one] .
    moreover note walletLoop_total [OF one]
    ultimately have "totalTasks (stats s1) = totalTasks (stats s)"
      by (cases tr1 rule: rev_cases) simp_all
    with Cons.IH [OF rec] walletLoop_total [OF one] show ?thesis
      unfolding eq by auto
  qed
qed

lemma testnetLoop_last:
  assumes "testnetLoop env aes cfg ts ti s = (tr, s')"
  shows "stats s' = snd (last ((e, stats s) # tr))"
  using assms
proof (induction ts arbitrary: ti s tr s')
  case Nil
  then show ?case by simp
next
  case (Cons t ts)
  show ?case
  proof (cases "isRunning s")
    case False
    with Cons.prems show ?thesis by simp
  next
    case True
    obtain ps where ps: "executeTestnet env aes cfg t ti s = walletLoop env aes t ti ps 0 s"
      using executeTestnet_walletLoop by blast
    obtain tr1 s1 where one: "walletLoop env aes t ti ps 0 s = (tr1, s1)"
      by (cases "walletLoop env aes t ti ps 0 s")
    let ?s2 = "s1\<lparr>isRunning := isRunning s1 \<and> \<not> stopAfterTestnet env ti\<rparr>"
    obtain tr2 s2' where rec: "testnetLoop env aes cfg ts (Suc ti) ?s2 = (tr2, s2')"
      by (cases "testnetLoop env aes cfg ts (Suc ti) ?s2")
    from Cons.prems(1) True one rec ps have eq: "tr = tr1 @ tr2" "s' = s2'" by simp_all
    have a: "stats s1 = snd (last ((e, stats s) # tr1))"
      using walletLoop_last [OF one] .
    have b: "stats s2' = snd (last ((e, stats s1) # tr2))"
      using Cons.IH [OF rec] by simp
    show ?thesis
      unfolding eq using a b by (cases tr2 rule: rev_cases) simp_all
  qed
qed


lemma executeAll_empty:
  assumes "\<not> isRunning s" "wallets (manager s) = [] \<or> testnets = []"
  shows "\<exists>e. executeAll env aes testnets cfg s =
           (ErrorToast e, [(RunReset, zeroStats)], s\<lparr>isRunning := False, stats := zeroStats\<rparr>)"
  using assms by (auto simp: executeAll_def Let_def)

lemma executeAll_run:
  assumes "\<not> isRunning s" "wallets (manager s) \<noteq> []" "testnets \<noteq> []"
    and "executeAll env aes testnets cfg s = (toast, tr, s')"
  shows "\<exists>ordered trL s2.
           length ordered = length testnets \<and>
           ordered = (if randomizeOrder cfg then shuffleArray (shuffleTestnetsR env) testnets else testnets) \<and>
           testnetLoop env aes cfg ordered 0
             (s\<lparr>isRunning := True,
                stats := zeroStats\<lparr>totalTasks := length testnets * length (wallets (manager s))\<rparr>\<rparr>)
             = (trL, s2) \<and>
           tr = (RunReset, zeroStats)
                  # (TotalSet, zeroStats\<lparr>totalTasks := length testnets * length (wallets (manager s))\<rparr>) # trL \<and>
           s' = s2\<lparr>isRunning := False\<rparr> \<and>
           toast = (if isRunning s2 then CompletedToast (successful (stats s2)) (totalTasks (stats s2))
                    else AutomationStopped)"
proof -
  let ?ordered = "if randomizeOrder cfg then shuffleArray (shuffleTestnetsR env) testnets else testnets"
  let ?s1 = "s\<lparr>isRunning := True,
                stats := zeroStats\<lparr>totalTasks := length testnets * length (wallets (manager s))\<rparr>\<rparr>"
  have len: "length ?ordered = length testnets" by (simp add: shuffleArray_length)
  obtain trL s2 where loop: "testnetLoop env aes cfg ?ordered 0 ?s1 = (trL, s2)"
    by (cases "testnetLoop env aes cfg ?ordered 0 ?s1")
  have "executeAll env aes testnets cfg s =
          ((if isRunning s2 then CompletedToast (successful (stats s2)) (totalTasks (stats s2))
            else AutomationStopped),
           (RunReset, zeroStats)
             # (TotalSet, zeroStats\<lparr>totalTasks := length testnets * length (wallets (manager s))\<rparr>) # trL,
           s2\<lparr>isRunning := False\<rparr>)"
    using assms(1-3) loop len by (simp add: executeAll_def Let_def shuffleArray_length)
  with assms(4) loop len show ?thesis by auto
qed

text \<open>
  Claim C1, as stated, fails: a wallet that already lists the testnet is skipped and
  counted in \<^verbatim>\<open>completed\<close> only, so a run over one such wallet ends with
  \<^verbatim>\<open>completed = 1\<close> and \<^verbatim>\<open>successful = failed = 0\<close>.
\<close>

theorem executeAll_skip_counterexample:
  "stats (snd (snd (executeAll (sampleEnv (1 / 2)) (\<lambda>d. RaisedAtOnce) [\<lparr>name = ''Sepolia'', tasks = Some [''faucet'']\<rparr>]
      \<lparr>randomizeOrder = False\<rparr> (sampleExecutor [sampleWallet 0 0 [''Sepolia'']]))))
   = \<lparr>totalTasks = 1, completedN = 1, successful = 0, failed = 0\<rparr>"
  by code_simp

text \<open>
  Claim C1, amended. For every run of \<^verbatim>\<open>executeAll\<close>, every value of the statistics
  that can be observed during the run (after the reset, after \<^verbatim>\<open>totalTasks\<close> is set,
  after each wallet of each testnet) and the value after the run satisfy
  \<^verbatim>\<open>completed = successful + failed + skipped\<close>, where \<open>skipped\<close> is the number of
  wallets skipped so far because they already list the testnet, and
  \<^verbatim>\<open>completed \<le> totalTasks\<close>.
\<close>

theorem executeAll_counters:
  assumes "executeAll env aes testnets cfg s = (toast, tr, s')"
    and "\<not> isRunning s"
  shows "countersAgree 0 tr \<and>
         stats s' = snd (last tr) \<and>
         completedN (stats s') = successful (stats s') + failed (stats s') + skips tr \<and>
         completedN (stats s') \<le> totalTasks (stats s')"
proof (cases "wallets (manager s) = [] \<or> testnets = []")
  case True
  from executeAll_empty [OF assms(2) True, of env aes cfg] assms(1)
  have "tr = [(RunReset, zeroStats)]" "stats s' = zeroStats" by auto
  then show ?thesis by (simp add: zeroStats_def skips_Cons skips_Nil)
next
  case False
  let ?n = "length testnets * length (wallets (manager s))"
  let ?s1 = "s\<lparr>isRunning := True, stats := zeroStats\<lparr>totalTasks := ?n\<rparr>\<rparr>"
  from False executeAll_run [OF assms(2) _ _ assms(1)]
  obtain ordered trL s2 where run:
    "length ordered = length testnets"
    "testnetLoop env aes cfg ordered 0 ?s1 = (trL, s2)"
    "tr = (RunReset, zeroStats) # (TotalSet, zeroStats\<lparr>totalTasks := ?n\<rparr>) # trL"
    "s' = s2\<lparr>isRunning := False\<rparr>"
    by auto
  have inv: "completedN (stats ?s1) = successful (stats ?s1) + failed (stats ?s1) + 0"
    by (simp add: zeroStats_def)
  have budget: "completedN (stats ?s1) + length ordered * length (wallets (manager ?s1)) \<le> totalTasks (stats ?s1)"
    using run(1) by (simp add: zeroStats_def)
  from testnetLoop_counters [OF run(2) inv budget] have c:
    "countersAgree 0 trL"
    "completedN (stats s2) = successful (stats s2) + failed (stats s2) + skips trL"
    "completedN (stats s2) \<le> totalTasks (stats s2)"
    by simp_all
  from testnetLoop_last [OF run(2), of TotalSet]
  have l: "stats s2 = snd (last ((TotalSet, zeroStats\<lparr>totalTasks := ?n\<rparr>) # trL))" by simp
  show ?thesis
    unfolding run(3,4) using c l by (simp add: zeroStats_def skips_Cons skips_Nil)
qed

theorem executeAll_counters_witness:
  "countersAgree 0 (fst (snd (executeAll (sampleEnv (1 / 2)) (\<lambda>d. RaisedAtOnce) sampleTestnets \<lparr>randomizeOrder = True\<rparr>
      (sampleExecutor [sampleWallet 0 0 [''Sepolia''], sampleWallet 1 0 []])))) \<and>
   skips (fst (snd (executeAll (sampleEnv (1 / 2)) (\<lambda>d. RaisedAtOnce) sampleTestnets \<lparr>randomizeOrder = True\<rparr>
      (sampleExecutor [sampleWallet 0 0 [''Sepolia''], sampleWallet 1 0 []])))) = 1 \<and>
   stats (snd (snd (executeAll (sampleEnv (1 / 2)) (\<lambda>d. RaisedAtOnce) sampleTestnets \<lparr>randomizeOrder = True\<rparr>
      (sampleExecutor [sampleWallet 0 0 [''Sepolia''], sampleWallet 1 0 []]))))
     = \<lparr>totalTasks = 4, completedN = 4, successful = 3, failed = 0\<rparr>"
proof -
  let ?X = "executeAll (sampleEnv (1 / 2)) (\<lambda>d. RaisedAtOnce) sampleTestnets \<lparr>randomizeOrder = True\<rparr>
      (sampleExecutor [sampleWallet 0 0 [''Sepolia''], sampleWallet 1 0 []])"
  have run: "?X = (fst ?X, fst (snd ?X), snd (snd ?X))" by simp
  have idle: "\<not> isRunning (sampleExecutor [sampleWallet 0 0 [''Sepolia''], sampleWallet 1 0 []])"
    by (simp add: sampleExecutor_def)
  have a: "skips (fst (snd ?X)) = 1" by code_simp
  have b: "stats (snd (snd ?X)) = \<lparr>totalTasks = 4, completedN = 4, successful = 3, failed = 0\<rparr>"
    by code_simp
  from executeAll_counters [OF run idle] a b show ?thesis by simp
qed

text \<open>
  Claim C9. A run of \<^verbatim>\<open>executeAll\<close> ends with \<^verbatim>\<open>totalTasks\<close> equal to the number
  of testnets times the number of wallets, every value of the statistics observed after
  the reset carries that same number, and replacing the task lists of the testnets by
  any others gives the same number.
\<close>

theorem executeAll_totalTasks:
  assumes "executeAll env aes testnets cfg s = (toast, tr, s')"
    and "\<not> isRunning s"
  shows "totalTasks (stats s') = length testnets * length (wallets (manager s)) \<and>
         (\<forall>(ev, st) \<in> set tr. ev \<noteq> RunReset
            \<longrightarrow> totalTasks st = length testnets * length (wallets (manager s))) \<and>
         totalTasks (stats (snd (snd (executeAll env aes (map (\<lambda>t. t\<lparr>tasks := f t\<rparr>) testnets) cfg s))))
           = totalTasks (stats s')"
proof -
  have main: "totalTasks (stats s'') = length tns * length (wallets (manager s)) \<and>
         (\<forall>(ev, st) \<in> set tr''. ev \<noteq> RunReset
            \<longrightarrow> totalTasks st = length tns * length (wallets (manager s)))"
    if ex: "executeAll env aes tns cfg s = (toast'', tr'', s'')" for tns toast'' tr'' s''
  proof (cases "wallets (manager s) = [] \<or> tns = []")
    case True
    from executeAll_empty [OF assms(2) True, of env aes cfg] ex
    have "tr'' = [(RunReset, zeroStats)]" "stats s'' = zeroStats" by auto
    then show ?thesis using True by (auto simp: zeroStats_def)
  next
    case False
    let ?n = "length tns * length (wallets (manager s))"
    let ?s1 = "s\<lparr>isRunning := True, stats := zeroStats\<lparr>totalTasks := ?n\<rparr>\<rparr>"
    from False executeAll_run [OF assms(2) _ _ ex]
    obtain ordered trL s2 where run:
      "testnetLoop env aes cfg ordered 0 ?s1 = (trL, s2)"
      "tr'' = (RunReset, zeroStats) # (TotalSet, zeroStats\<lparr>totalTasks := ?n\<rparr>) # trL"
      "s'' = s2\<lparr>isRunning := False\<rparr>"
      by auto
    from testnetLoop_total [OF run(1)] show ?thesis
      unfolding run(2,3) by auto
  qed
  let ?tns = "map (\<lambda>t. t\<lparr>tasks := f t\<rparr>) testnets"
  have "executeAll env aes ?tns cfg s =
          (fst (executeAll env aes ?tns cfg s), fst (snd (executeAll env aes ?tns cfg s)),
           snd (snd (executeAll env aes ?tns cfg s)))" by simp
  from main [OF this] main [OF assms(1)] show ?thesis by simp
qed

theorem executeAll_totalTasks_witness:
  "totalTasks (stats (snd (snd (executeAll (sampleEnv (1 / 2)) (\<lambda>d. RaisedAtOnce) sampleTestnets \<lparr>randomizeOrder = False\<rparr>
      (sampleExecutor [sampleWallet 0 0 [''Sepolia''], sampleWallet 1 0 [], sampleWallet 2 0 []])))))
     = 2 * 3 \<and>
   totalTasks (stats (snd (snd (executeAll (sampleEnv (1 / 2)) (\<lambda>d. RaisedAtOnce)
      (map (\<lambda>t. t\<lparr>tasks := Some [''stake'']\<rparr>) sampleTestnets) \<lparr>randomizeOrder = False\<rparr>
      (sampleExecutor [sampleWallet 0 0 [''Sepolia''], sampleWallet 1 0 [], sampleWallet 2 0 []])))))
     = 2 * 3"
proof -
  let ?s = "sampleExecutor [sampleWallet 0 0 [''Sepolia''], sampleWallet 1 0 [], sampleWallet 2 0 []]"
  let ?X = "executeAll (sampleEnv (1 / 2)) (\<lambda>d. RaisedAtOnce) sampleTestnets \<lparr>randomizeOrder = False\<rparr> ?s"
  have run: "?X = (fst ?X, fst (snd ?X), snd (snd ?X))" by simp
  have idle: "\<not> isRunning ?s" by (simp add: sampleExecutor_def)
  have n: "length sampleTestnets = 2" "length (wallets (manager ?s)) = 3"
    by (simp_all add: sampleTestnets_def sampleExecutor_def)
  from executeAll_totalTasks [OF run idle, of "\<lambda>t. Some [''stake'']"] n show ?thesis by simp
qed

lemma shuffle_index_bound:
  assumes "0 \<le> (x :: rat)" "x < 1"
  shows "nat \<lfloor>x * (of_nat (Suc i) + 1)\<rfloor> \<le> Suc i"
proof -
  have "x * (of_nat (Suc i) + 1) < of_nat (Suc i) + 1"
    using assms by (simp add: mult_less_cancel_right2 add_pos_nonneg)
  then have "x * (of_nat (Suc i) + 1) < of_int (int (Suc i) + 1)" by simp
  then have "\<lfloor>x * (of_nat (Suc i) + 1)\<rfloor> < int (Suc i) + 1" by (simp only: floor_less_iff)
  then show ?thesis by simp
qed

lemma shuffleLoop_set:
  assumes "\<forall>k. 0 \<le> r k \<and> r k < 1" "i < length xs"
  shows "set (shuffleLoop r i xs) = set xs"
  using assms(2)
proof (induction i arbitrary: xs)
  case 0
  then show ?case by simp
next
  case (Suc i)
  let ?j = "nat \<lfloor>r (Suc i) * (of_nat (Suc i) + 1)\<rfloor>"
  have "?j \<le> Suc i" using assms(1) by (intro shuffle_index_bound) auto
  with Suc.prems have j: "?j < length xs" by simp
  let ?ys = "xs[Suc i := xs ! ?j, ?j := xs ! Suc i]"
  have "set ?ys = set xs" using Suc.prems j by (rule set_swap)
  moreover have "i < length ?ys" using Suc.prems by simp
  from Suc.IH [OF this] have "set (shuffleLoop r i ?ys) = set ?ys" .
  ultimately show ?case by (simp add: Let_def)
qed

lemma shuffleArray_set:
  assumes "\<forall>k. 0 \<le> r k \<and> r k < 1"
  shows "set (shuffleArray r xs) = set xs"
proof (cases xs)
  case Nil
  then show ?thesis by (simp add: shuffleArray_def)
next
  case (Cons x xs')
  then have "length xs - 1 < length xs" by simp
  from shuffleLoop_set [OF assms this] show ?thesis by (simp add: shuffleArray_def)
qed

lemma walletStep_listed:
  assumes "name t \<in> set (completed (wallets (manager s) ! p))"
  shows "walletStep env aes t ti p wi s =
           ((Skipped (name t) p, (stats s)\<lparr>completedN := completedN (stats s) + 1\<rparr>),
            s\<lparr>stats := (stats s)\<lparr>completedN := completedN (stats s) + 1\<rparr>\<rparr>)"
  using assms by (simp add: walletStep_def Let_def)

lemma walletLoop_listed:
  assumes "\<forall>p \<in> set ps. name t \<in> set (completed (wallets (manager s) ! p))"
    and "walletLoop env aes t ti ps wi s = (tr, s')"
  shows "manager s' = manager s \<and> isRunning s' = isRunning s \<and>
         successful (stats s') = successful (stats s) \<and> failed (stats s') = failed (stats s) \<and>
         (\<forall>e \<in> set tr. isSkipped (fst e))"
  using assms
proof (induction ps arbitrary: wi s tr s')
  case Nil
  then show ?case by simp
next
  case (Cons p ps)
  show ?case
  proof (cases "isRunning s")
    case False
    with Cons.prems show ?thesis by simp
  next
    case True
    let ?s1 = "s\<lparr>stats := (stats s)\<lparr>completedN := completedN (stats s) + 1\<rparr>\<rparr>"
    from Cons.prems(1) have step: "walletStep env aes t ti p wi s =
        ((Skipped (name t) p, (stats s)\<lparr>completedN := completedN (stats s) + 1\<rparr>), ?s1)"
      by (intro walletStep_listed) simp
    obtain tr1 s1' where rec: "walletLoop env aes t ti ps (Suc wi) ?s1 = (tr1, s1')"
      by (cases "walletLoop env aes t ti ps (Suc wi) ?s1")
    from Cons.prems(2) True step rec
    have eq: "tr = (Skipped (name t) p, (stats s)\<lparr>completedN := completedN (stats s) + 1\<rparr>) # tr1" "s' = s1'"
      by simp_all
    from Cons.prems(1) have "\<forall>p \<in> set ps. name t \<in> set (completed (wallets (manager ?s1) ! p))" by simp
    from Cons.IH [OF this rec] show ?thesis unfolding eq by simp
  qed
qed

lemma testnetLoop_listed:
  assumes "\<forall>t \<in> set ts. \<forall>w \<in> set (wallets (manager s)). name t \<in> set (completed w)"
    and "\<forall>ti i. 0 \<le> shuffleWalletsR env ti i \<and> shuffleWalletsR env ti i < 1"
    and "testnetLoop env aes cfg ts ti s = (tr, s')"
  shows "manager s' = manager s \<and>
         successful (stats s') = successful (stats s) \<and> failed (stats s') = failed (stats s) \<and>
         (\<forall>e \<in> set tr. isSkipped (fst e))"
  using assms(1,3)
proof (induction ts arbitrary: ti s tr s')
  case Nil
  then show ?case by simp
next
  case (Cons t ts)
  show ?case
  proof (cases "isRunning s")
    case False
    with Cons.prems show ?thesis by simp
  next
    case True
    let ?n = "length (wallets (manager s))"
    let ?ps = "if randomizeOrder cfg then shuffleArray (shuffleWalletsR env ti) [0..<?n] else [0..<?n]"
    have "set ?ps = {0..<?n}"
      using assms(2) by (simp add: shuffleArray_set)
    then have listed: "\<forall>p \<in> set ?ps. name t \<in> set (completed (wallets (manager s) ! p))"
      using Cons.prems(1) by (auto simp del: set_upt)
    obtain tr1 s1 where one: "walletLoop env aes t ti ?ps 0 s = (tr1, s1)"
      by (cases "walletLoop env aes t ti ?ps 0 s")
    then have one': "executeTestnet env aes cfg t ti s = (tr1, s1)"
      by (simp add: executeTestnet_def Let_def)
    let ?s2 = "s1\<lparr>isRunning := isRunning s1 \<and> \<not> stopAfterTestnet env ti\<rparr>"
    obtain tr2 s2' where rec: "testnetLoop env aes cfg ts (Suc ti) ?s2 = (tr2, s2')"
      by (cases "testnetLoop env aes cfg ts (Suc ti) ?s2")
    from Cons.prems(2) True one' rec have eq: "tr = tr1 @ tr2" "s' = s2'" by simp_all
    note w = walletLoop_listed [OF listed one]
    from Cons.prems(1) w have "\<forall>t \<in> set ts. \<forall>w \<in> set (wallets (manager ?s2)). name t \<in> set (completed w)"
      by simp
    from Cons.IH [OF this rec] w show ?thesis unfolding eq by auto
  qed
qed

lemma executeAll_rerun_skips:
  assumes "executeAll env aes testnets cfg s = (toast, tr, s')"
    and "\<not> isRunning s"
    and "\<forall>w \<in> set (wallets (manager s)). \<forall>t \<in> set testnets. name t \<in> set (completed w)"
    and "\<forall>i. 0 \<le> shuffleTestnetsR env i \<and> shuffleTestnetsR env i < 1"
    and "\<forall>ti i. 0 \<le> shuffleWalletsR env ti i \<and> shuffleWalletsR env ti i < 1"
  shows "successful (stats s') = 0 \<and> failed (stats s') = 0 \<and> manager s' = manager s \<and>
         (\<forall>(ev, st) \<in> set tr. ev = RunReset \<or> ev = TotalSet \<or> isSkipped ev)"
proof (cases "wallets (manager s) = [] \<or> testnets = []")
  case True
  from executeAll_empty [OF assms(2) True, of env aes cfg] assms(1)
  have "tr = [(RunReset, zeroStats)]" "s' = s\<lparr>isRunning := False, stats := zeroStats\<rparr>" by auto
  then show ?thesis by (simp add: zeroStats_def)
next
  case False
  let ?n = "length testnets * length (wallets (manager s))"
  let ?s1 = "s\<lparr>isRunning := True, stats := zeroStats\<lparr>totalTasks := ?n\<rparr>\<rparr>"
  from False executeAll_run [OF assms(2) _ _ assms(1)]
  obtain ordered trL s2 where run:
    "ordered = (if randomizeOrder cfg then shuffleArray (shuffleTestnetsR env) testnets else testnets)"
    "testnetLoop env aes cfg ordered 0 ?s1 = (trL, s2)"
    "tr = (RunReset, zeroStats) # (TotalSet, zeroStats\<lparr>totalTasks := ?n\<rparr>) # trL"
    "s' = s2\<lparr>isRunning := False\<rparr>"
    by auto
  have "set ordered = set testnets"
    unfolding run(1) using assms(4) by (simp add: shuffleArray_set)
  with assms(3) have "\<forall>t \<in> set ordered. \<forall>w \<in> set (wallets (manager ?s1)). name t \<in> set (completed w)"
    by simp
  from testnetLoop_listed [OF this assms(5) run(2)] show ?thesis
    unfolding run(3,4) by (auto simp: zeroStats_def)
qed


lemma getWalletByIndex_bound:
  "getWalletByIndex i ws = Some p \<Longrightarrow> p < length ws"
  by (induction ws arbitrary: p) (auto split: if_splits)

lemma getWalletByIndex_distinct:
  "distinct (map index ws) \<Longrightarrow> p < length ws \<Longrightarrow> getWalletByIndex (index (ws ! p)) ws = Some p"
proof (induction ws arbitrary: p)
  case Nil
  then show ?case by simp
next
  case (Cons w ws)
  show ?case
  proof (cases p)
    case 0
    then show ?thesis by simp
  next
    case (Suc q)
    with Cons.prems have q: "q < length ws" by simp
    then have "index (ws ! q) \<in> index ` set ws" by simp
    moreover from Cons.prems(1) have "index w \<notin> index ` set ws" by simp
    ultimately have "index (ws ! q) \<noteq> index w" by metis
    with Cons.IH [of q] Cons.prems(1) Suc q show ?thesis by simp
  qed
qed

lemma markTestnetCompleted_mono:
  "map index (wallets (snd (markTestnetCompleted aes i n wm))) = map index (wallets wm) \<and>
   (\<forall>q. set (completed (wallets wm ! q))
          \<subseteq> set (completed (wallets (snd (markTestnetCompleted aes i n wm)) ! q)))"
proof (cases "getWalletByIndex i (wallets wm)")
  case None
  then show ?thesis by (simp add: markTestnetCompleted_def)
next
  case (Some p)
  then have p: "p < length (wallets wm)" by (rule getWalletByIndex_bound)
  let ?ws = "(wallets wm)[p := (wallets wm ! p)\<lparr>completed := completed (wallets wm ! p) @ [n]\<rparr>]"
  have "map index ?ws = map index (wallets wm)"
    using p by (intro nth_equalityI) (auto simp: nth_list_update)
  moreover have "set (completed (wallets wm ! q)) \<subseteq> set (completed (?ws ! q))" for q
    using p by (cases "q = p") auto
  ultimately show ?thesis
    using Some by (auto simp: markTestnetCompleted_def saveWallets_wallets)
qed

lemma markTestnetCompleted_marks:
  assumes "distinct (map index (wallets wm))" "p < length (wallets wm)"
  shows "n \<in> set (completed (wallets (snd (markTestnetCompleted aes (index (wallets wm ! p)) n wm)) ! p))"
  using getWalletByIndex_distinct [OF assms] assms(2)
  by (simp add: markTestnetCompleted_def saveWallets_wallets)

lemma executeWalletTasks_running:
  "executeWalletTasks env ti wi ts k running = (r, running') \<Longrightarrow> running' \<Longrightarrow> running"
  by (cases ts) (auto split: if_splits)

lemma walletStep_manager:
  assumes "walletStep env aes t ti p wi s = ((ev, sn), s1)"
  shows "failed (stats s) \<le> failed (stats s1)"
    and "manager s1 = manager s \<or>
         manager s1 = snd (markTestnetCompleted aes (index (wallets (manager s) ! p)) (name t) (manager s))"
    and "failed (stats s1) = failed (stats s) \<Longrightarrow>
           (name t \<in> set (completed (wallets (manager s) ! p)) \<and> manager s1 = manager s) \<or>
           manager s1 = snd (markTestnetCompleted aes (index (wallets (manager s) ! p)) (name t) (manager s))"
  using assms
  by (auto simp: walletStep_def Let_def split: if_splits prod.splits option.splits)

lemma walletStep_mono:
  assumes "walletStep env aes t ti p wi s = ((ev, sn), s1)"
  shows "map index (wallets (manager s1)) = map index (wallets (manager s))"
    and "\<forall>q. set (completed (wallets (manager s) ! q)) \<subseteq> set (completed (wallets (manager s1) ! q))"
    and "failed (stats s) \<le> failed (stats s1)"
proof -
  note m = markTestnetCompleted_mono [of aes "index (wallets (manager s) ! p)" "name t" "manager s"]
  from walletStep_manager(2) [OF assms] m
  show "map index (wallets (manager s1)) = map index (wallets (manager s))" by auto
  from walletStep_manager(2) [OF assms]
  show "\<forall>q. set (completed (wallets (manager s) ! q)) \<subseteq> set (completed (wallets (manager s1) ! q))"
  proof
    assume "manager s1 = manager s"
    then show ?thesis by simp
  next
    assume "manager s1 = snd (markTestnetCompleted aes (index (wallets (manager s) ! p)) (name t) (manager s))"
    with m show ?thesis by simp
  qed
  from walletStep_manager(1) [OF assms] show "failed (stats s) \<le> failed (stats s1)" .
qed

lemma walletStep_completes:
  assumes "walletStep env aes t ti p wi s = ((ev, sn), s1)"
    and "distinct (map index (wallets (manager s)))" "p < length (wallets (manager s))"
    and "failed (stats s1) = failed (stats s)"
  shows "name t \<in> set (completed (wallets (manager s1) ! p))"
  using walletStep_manager(3) [OF assms(1,4)] markTestnetCompleted_marks [OF assms(2,3), of "name t" aes]
  by auto

lemma walletLoop_mono:
  assumes "walletLoop env aes t ti ps wi s = (tr, s')"
  shows "map index (wallets (manager s')) = map index (wallets (manager s)) \<and>
         (\<forall>q. set (completed (wallets (manager s) ! q)) \<subseteq> set (completed (wallets (manager s') ! q))) \<and>
         failed (stats s) \<le> failed (stats s')"
  using assms
proof (induction ps arbitrary: wi s tr s')
  case Nil
  then show ?case by simp
next
  case (Cons p ps)
  show ?case
  proof (cases "isRunning s")
    case False
    with Cons.prems show ?thesis by simp
  next
    case True
    obtain ev sn s1 where step: "walletStep env aes t ti p wi s = ((ev, sn), s1)"
      by (cases "walletStep env aes t ti p wi s") auto
    obtain tr1 s1' where rec: "walletLoop env aes t ti ps (Suc wi) s1 = (tr1, s1')"
      by (cases "walletLoop env aes t ti ps (Suc wi) s1")
    from Cons.prems(1) True step rec have eq: "s' = s1'" by simp
    from walletStep_mono(1-3) [OF step] Cons.IH [OF rec] show ?thesis
      unfolding eq by (auto intro: order_trans)
  qed
qed

lemma walletLoop_completes:
  assumes "walletLoop env aes t ti ps wi s = (tr, s')"
    and "distinct (map index (wallets (manager s)))"
    and "\<forall>p \<in> set ps. p < length (wallets (manager s))"
    and "isRunning s'" "failed (stats s') = failed (stats s)"
  shows "\<forall>p \<in> set ps. name t \<in> set (completed (wallets (manager s') ! p))"
  using assms
proof (induction ps arbitrary: wi s tr s')
  case Nil
  then show ?case by simp
next
  case (Cons p ps)
  have run: "isRunning s"
  proof (rule ccontr)
    assume "\<not> isRunning s"
    with Cons.prems(1) have "s' = s" by simp
    with Cons.prems(4) \<open>\<not> isRunning s\<close> show False by simp
  qed
  obtain ev sn s1 where step: "walletStep env aes t ti p wi s = ((ev, sn), s1)"
    by (cases "walletStep env aes t ti p wi s") auto
  obtain tr1 s1' where rec: "walletLoop env aes t ti ps (Suc wi) s1 = (tr1, s1')"
    by (cases "walletLoop env aes t ti ps (Suc wi) s1")
  from Cons.prems(1) run step rec have eq: "s' = s1'" by simp
  note m1 = walletStep_mono(1-3) [OF step]
  from walletLoop_mono [OF rec] have m2:
    "\<forall>q. set (completed (wallets (manager s1) ! q)) \<subseteq> set (completed (wallets (manager s1') ! q))"
    "failed (stats s1) \<le> failed (stats s1')" by simp_all
  from m1(3) m2(2) Cons.prems(5) eq have f: "failed (stats s1) = failed (stats s)"
    "failed (stats s1') = failed (stats s1)" by simp_all
  from Cons.prems(3) have p: "p < length (wallets (manager s))" by simp
  from walletStep_completes [OF step Cons.prems(2) p f(1)]
  have here: "name t \<in> set (completed (wallets (manager s1) ! p))" .
  have len: "length (wallets (manager s1)) = length (wallets (manager s))"
    using m1(1) by (metis length_map)
  have d1: "distinct (map index (wallets (manager s1)))" using m1(1) Cons.prems(2) by simp
  have b1: "\<forall>p \<in> set ps. p < length (wallets (manager s1))" using Cons.prems(3) len by simp
  from Cons.IH [OF rec d1 b1] Cons.prems(4) f(2) eq
  have "\<forall>p \<in> set ps. name t \<in> set (completed (wallets (manager s1') ! p))" by simp
  with here m2(1) show ?case unfolding eq by auto
qed

lemma testnetLoop_mono:
  assumes "testnetLoop env aes cfg ts ti s = (tr, s')"
  shows "map index (wallets (manager s')) = map index (wallets (manager s)) \<and>
         (\<forall>q. set (completed (wallets (manager s) ! q)) \<subseteq> set (completed (wallets (manager s') ! q))) \<and>
         failed (stats s) \<le> failed (stats s')"
  using assms
proof (induction ts arbitrary: ti s tr s')
  case Nil
  then show ?case by simp
next
  case (Cons t ts)
  show ?case
  proof (cases "isRunning s")
    case False
    with Cons.prems show ?thesis by simp
  next
    case True
    obtain ps where ps: "executeTestnet env aes cfg t ti s = walletLoop env aes t ti ps 0 s"
      using executeTestnet_walletLoop by blast
    obtain tr1 s1 where one: "walletLoop env aes t ti ps 0 s = (tr1, s1)"
      by (cases "walletLoop env aes t ti ps 0 s")
    let ?s2 = "s1\<lparr>isRunning := isRunning s1 \<and> \<not> stopAfterTestnet env ti\<rparr>"
    obtain tr2 s2' where rec: "testnetLoop env aes cfg ts (Suc ti) ?s2 = (tr2, s2')"
      by (cases "testnetLoop env aes cfg ts (Suc ti) ?s2")
    from Cons.prems(1) True one rec ps have eq: "s' = s2'" by simp
    from walletLoop_mono [OF one] Cons.IH [OF rec] show ?thesis
      unfolding eq by (auto intro: order_trans)
  qed
qed

lemma testnetLoop_completes:
  assumes "testnetLoop env aes cfg ts ti s = (tr, s')"
    and "distinct (map index (wallets (manager s)))"
    and "\<forall>ti i. 0 \<le> shuffleWalletsR env ti i \<and> shuffleWalletsR env ti i < 1"
    and "isRunning s'" "failed (stats s') = failed (stats s)"
  shows "\<forall>t \<in> set ts. \<forall>w \<in> set (wallets (manager s')). name t \<in> set (completed w)"
  using assms(1,2,4,5)
proof (induction ts arbitrary: ti s tr s')
  case Nil
  then show ?case by simp
next
  case (Cons t ts)
  have run: "isRunning s"
  proof (rule ccontr)
    assume "\<not> isRunning s"
    with Cons.prems(1) have "s' = s" by simp
    with Cons.prems(3) \<open>\<not> isRunning s\<close> show False by simp
  qed
  let ?n = "length (wallets (manager s))"
  let ?ps = "if randomizeOrder cfg then shuffleArray (shuffleWalletsR env ti) [0..<?n] else [0..<?n]"
  have setps: "set ?ps = {0..<?n}"
    using assms(3) by (simp add: shuffleArray_set)
  obtain tr1 s1 where one: "walletLoop env aes t ti ?ps 0 s = (tr1, s1)"
    by (cases "walletLoop env aes t ti ?ps 0 s")
  then have one': "executeTestnet env aes cfg t ti s = (tr1, s1)"
    by (simp add: executeTestnet_def Let_def)
  let ?s2 = "s1\<lparr>isRunning := isRunning s1 \<and> \<not> stopAfterTestnet env ti\<rparr>"
  obtain tr2 s2' where rec: "testnetLoop env aes cfg ts (Suc ti) ?s2 = (tr2, s2')"
    by (cases "testnetLoop env aes cfg ts (Suc ti) ?s2")
  from Cons.prems(1) run one' rec have eq: "s' = s2'" by simp
  from walletLoop_mono [OF one] have m1:
    "map index (wallets (manager s1)) = map index (wallets (manager s))"
    "failed (stats s) \<le> failed (stats s1)" by simp_all
  from testnetLoop_mono [OF rec] have m2:
    "map index (wallets (manager s2')) = map index (wallets (manager s1))"
    "\<forall>q. set (completed (wallets (manager s1) ! q)) \<subseteq> set (completed (wallets (manager s2') ! q))"
    "failed (stats s1) \<le> failed (stats s2')" by simp_all
  from m1(2) m2(3) Cons.prems(4) eq have f: "failed (stats s1) = failed (stats s)"
    "failed (stats s2') = failed (stats ?s2)" by simp_all
  have run2: "isRunning ?s2"
  proof (rule ccontr)
    assume "\<not> isRunning ?s2"
    with rec have "s2' = ?s2" by (cases ts) simp_all
    with Cons.prems(3) eq \<open>\<not> isRunning ?s2\<close> show False by simp
  qed
  then have run1: "isRunning s1" by simp
  have bound: "\<forall>p \<in> set ?ps. p < ?n" using setps by (auto simp del: set_upt)
  from walletLoop_completes [OF one Cons.prems(2) bound run1 f(1)] setps
  have t1: "\<forall>p < ?n. name t \<in> set (completed (wallets (manager s1) ! p))" by (auto simp del: set_upt)
  have len: "length (wallets (manager s2')) = ?n"
    using m1(1) m2(1) by (metis length_map)
  have "\<forall>w \<in> set (wallets (manager s2')). name t \<in> set (completed w)"
  proof
    fix w assume "w \<in> set (wallets (manager s2'))"
    then obtain p where p: "p < ?n" "w = wallets (manager s2') ! p"
      using len by (auto simp: in_set_conv_nth)
    with t1 m2(2) show "name t \<in> set (completed w)" by auto
  qed
  moreover have d2: "distinct (map index (wallets (manager ?s2)))"
    using m1(1) Cons.prems(2) by simp
  from Cons.IH [OF rec d2] Cons.prems(3) f(2) eq
  have "\<forall>t \<in> set ts. \<forall>w \<in> set (wallets (manager s2')). name t \<in> set (completed w)" by simp
  ultimately show ?case unfolding eq by simp
qed

text \<open>
  Claim C8, as stated, fails: a wallet whose task failed in the first run does not list
  the testnet, so a second run over the same testnet and wallet executes it again and,
  here, counts it as successful.
\<close>

theorem executeAll_retry_counterexample:
  "stats (snd (snd (executeAll (sampleEnv (1 / 2)) (\<lambda>d. RaisedAtOnce) [\<lparr>name = ''Sepolia'', tasks = Some [''faucet'']\<rparr>]
      \<lparr>randomizeOrder = False\<rparr>
      (snd (snd (executeAll (sampleEnv 0) (\<lambda>d. RaisedAtOnce) [\<lparr>name = ''Sepolia'', tasks = Some [''faucet'']\<rparr>]
         \<lparr>randomizeOrder = False\<rparr> (sampleExecutor [sampleWallet 0 0 []])))))))
   = \<lparr>totalTasks = 1, completedN = 1, successful = 1, failed = 0\<rparr> \<and>
   stats (snd (snd (executeAll (sampleEnv 0) (\<lambda>d. RaisedAtOnce) [\<lparr>name = ''Sepolia'', tasks = Some [''faucet'']\<rparr>]
         \<lparr>randomizeOrder = False\<rparr> (sampleExecutor [sampleWallet 0 0 []]))))
   = \<lparr>totalTasks = 1, completedN = 1, successful = 0, failed = 1\<rparr>"
  by code_simp

text \<open>
  Claim C8, amended. If a first run of \<^verbatim>\<open>executeAll\<close> ends with the completion toast
  (it was not stopped) and without a failed wallet, over wallets with distinct
  \<^verbatim>\<open>index\<close> values, then a second run over the same testnets, from the state the first
  run left, whatever its options and random draws, counts no wallet as successful or
  failed, changes no wallet and only skips: every wallet lists every testnet.
\<close>

theorem executeAll_twice:
  assumes "executeAll env aes testnets cfg s = (CompletedToast k n, tr, s')"
    and "\<not> isRunning s"
    and "failed (stats s') = 0"
    and "distinct (map index (wallets (manager s)))"
    and "\<forall>i. 0 \<le> shuffleTestnetsR env i \<and> shuffleTestnetsR env i < 1"
    and "\<forall>ti i. 0 \<le> shuffleWalletsR env ti i \<and> shuffleWalletsR env ti i < 1"
    and "executeAll env2 aes2 testnets cfg2 s' = (toast2, tr2, s'')"
    and "\<forall>i. 0 \<le> shuffleTestnetsR env2 i \<and> shuffleTestnetsR env2 i < 1"
    and "\<forall>ti i. 0 \<le> shuffleWalletsR env2 ti i \<and> shuffleWalletsR env2 ti i < 1"
  shows "successful (stats s'') = 0 \<and> failed (stats s'') = 0 \<and> manager s'' = manager s' \<and>
         (\<forall>(ev, st) \<in> set tr2. ev = RunReset \<or> ev = TotalSet \<or> isSkipped ev)"
proof -
  have nonempty: "\<not> (wallets (manager s) = [] \<or> testnets = [])"
  proof
    assume "wallets (manager s) = [] \<or> testnets = []"
    from executeAll_empty [OF assms(2) this, of env aes cfg] assms(1) show False by auto
  qed
  let ?n = "length testnets * length (wallets (manager s))"
  let ?s1 = "s\<lparr>isRunning := True, stats := zeroStats\<lparr>totalTasks := ?n\<rparr>\<rparr>"
  from nonempty executeAll_run [OF assms(2) _ _ assms(1)]
  obtain ordered trL s2 where run:
    "ordered = (if randomizeOrder cfg then shuffleArray (shuffleTestnetsR env) testnets else testnets)"
    "testnetLoop env aes cfg ordered 0 ?s1 = (trL, s2)"
    "s' = s2\<lparr>isRunning := False\<rparr>"
    "CompletedToast k n = (if isRunning s2 then CompletedToast (successful (stats s2)) (totalTasks (stats s2))
                          else AutomationStopped)"
    by auto
  from run(4) have running: "isRunning s2" by (auto split: if_splits)
  have f: "failed (stats s2) = failed (stats ?s1)"
    using assms(3) run(3) by (simp add: zeroStats_def)
  have d: "distinct (map index (wallets (manager ?s1)))" using assms(4) by simp
  from testnetLoop_completes [OF run(2) d assms(6) running f]
  have "\<forall>t \<in> set ordered. \<forall>w \<in> set (wallets (manager s2)). name t \<in> set (completed w)" .
  moreover have "set ordered = set testnets"
    unfolding run(1) using assms(5) by (simp add: shuffleArray_set)
  ultimately have listed: "\<forall>w \<in> set (wallets (manager s')). \<forall>t \<in> set testnets. name t \<in> set (completed w)"
    using run(3) by simp
  have idle: "\<not> isRunning s'" using run(3) by simp
  from executeAll_rerun_skips [OF assms(7) idle listed assms(8,9)] show ?thesis .
qed

theorem executeAll_twice_witness:
  "fst (executeAll (sampleEnv (1 / 2)) (\<lambda>d. RaisedAtOnce) sampleTestnets \<lparr>randomizeOrder = True\<rparr>
      (sampleExecutor [sampleWallet 0 0 [''Sepolia''], sampleWallet 1 0 []])) = CompletedToast 3 4 \<and>
   stats (snd (snd (executeAll (sampleEnv 0) (\<lambda>d. RaisedAtOnce) sampleTestnets \<lparr>randomizeOrder = False\<rparr>
      (snd (snd (executeAll (sampleEnv (1 / 2)) (\<lambda>d. RaisedAtOnce) sampleTestnets \<lparr>randomizeOrder = True\<rparr>
         (sampleExecutor [sampleWallet 0 0 [''Sepolia''], sampleWallet 1 0 []])))))))
   = \<lparr>totalTasks = 4, completedN = 4, successful = 0, failed = 0\<rparr>"
proof -
  let ?s = "sampleExecutor [sampleWallet 0 0 [''Sepolia''], sampleWallet 1 0 []]"
  let ?X = "executeAll (sampleEnv (1 / 2)) (\<lambda>d. RaisedAtOnce) sampleTestnets \<lparr>randomizeOrder = True\<rparr> ?s"
  let ?Y = "executeAll (sampleEnv 0) (\<lambda>d. RaisedAtOnce) sampleTestnets \<lparr>randomizeOrder = False\<rparr> (snd (snd ?X))"
  have toast: "fst ?X = CompletedToast 3 4" by code_simp
  have run1: "?X = (CompletedToast 3 4, fst (snd ?X), snd (snd ?X))"
    using toast by (metis prod.collapse)
  have idle: "\<not> isRunning ?s" by (simp add: sampleExecutor_def)
  have nofail: "failed (stats (snd (snd ?X))) = 0" by code_simp
  have dist: "distinct (map index (wallets (manager ?s)))"
    by (simp add: sampleExecutor_def sampleWallet_def)
  have wf1: "\<forall>i. 0 \<le> shuffleTestnetsR (sampleEnv (1 / 2)) i \<and> shuffleTestnetsR (sampleEnv (1 / 2)) i < 1"
    and wf2: "\<forall>ti i. 0 \<le> shuffleWalletsR (sampleEnv (1 / 2)) ti i \<and> shuffleWalletsR (sampleEnv (1 / 2)) ti i < 1"
    and wf3: "\<forall>i. 0 \<le> shuffleTestnetsR (sampleEnv 0) i \<and> shuffleTestnetsR (sampleEnv 0) i < 1"
    and wf4: "\<forall>ti i. 0 \<le> shuffleWalletsR (sampleEnv 0) ti i \<and> shuffleWalletsR (sampleEnv 0) ti i < 1"
    by (simp_all add: sampleEnv_def)
  have run2: "?Y = (fst ?Y, fst (snd ?Y), snd (snd ?Y))" by simp
  have total: "stats (snd (snd ?Y)) = \<lparr>totalTasks = 4, completedN = 4, successful = 0, failed = 0\<rparr>"
    by code_simp
  from executeAll_twice [OF run1 idle nofail dist wf1 wf2 run2 wf3 wf4] toast total
  show ?thesis by simp
qed

text \<open>
  When the save inside \<^verbatim>\<open>markTestnetCompleted\<close> raises, the wallet already lists the
  testnet and the unit is counted as failed.
\<close>

lemma executeAll_save_failure:
  "stats (snd (snd (executeAll (sampleEnv (1 / 2)) (\<lambda>d. Encrypted ''Y2lwaGVy'')
      [\<lparr>name = ''Sepolia'', tasks = Some [''faucet'']\<rparr>] \<lparr>randomizeOrder = False\<rparr>
      (sampleExecutor [sampleWallet 0 0 []]))))
   = \<lparr>totalTasks = 1, completedN = 1, successful = 0, failed = 1\<rparr> \<and>
   map completed (wallets (manager (snd (snd (executeAll (sampleEnv (1 / 2)) (\<lambda>d. Encrypted ''Y2lwaGVy'')
      [\<lparr>name = ''Sepolia'', tasks = Some [''faucet'']\<rparr>] \<lparr>randomizeOrder = False\<rparr>
      (sampleExecutor [sampleWallet 0 0 []])))))) = [[''Sepolia'']]"
  by code_simp

end
